theory Spec2Isabelle
  imports Complex_Main "HOL-Library.Word"
begin

section \<open>JavaScript numbers, integer conversions and byte buffers\<close>

text \<open>
  The values a \<^verbatim>\<open>Float32Array\<close> element or a JavaScript expression over it can take.
  Finite values are modelled by the real number they denote.  In the encoder the only
  arithmetic on samples is a comparison and a multiplication of a clamped 32-bit float
  (24 significant bits) by \<^verbatim>\<open>0x8000\<close> or \<^verbatim>\<open>0x7FFF\<close> (15 bits); the product has at most
  39 significant bits and is therefore exact in double precision, so the real product is
  the value the program computes.
\<close>

datatype number = Fin real | PosInf | NegInf | NaN

datatype error = RangeError | IndexSizeError | TypeError | NotSupportedError | DecodeError

type_synonym byte = "8 word"

definition and_then :: "error + 'a \<Rightarrow> ('a \<Rightarrow> error + 'b) \<Rightarrow> error + 'b" where
  "and_then r f = (case r of Inl e \<Rightarrow> Inl e | Inr x \<Rightarrow> f x)"

text \<open>The relational operator \<^verbatim>\<open><\<close> of the language: false whenever an operand is NaN.\<close>

fun num_less :: "number \<Rightarrow> number \<Rightarrow> bool" where
  "num_less NaN _ = False"
| "num_less _ NaN = False"
| "num_less (Fin x) (Fin y) = (x < y)"
| "num_less (Fin x) PosInf = True"
| "num_less (Fin x) NegInf = False"
| "num_less PosInf _ = False"
| "num_less NegInf NegInf = False"
| "num_less NegInf _ = True"

definition Math_min :: "number \<Rightarrow> number \<Rightarrow> number" where
  "Math_min a b = (if a = NaN \<or> b = NaN then NaN else if num_less b a then b else a)"

definition Math_max :: "number \<Rightarrow> number \<Rightarrow> number" where
  "Math_max a b = (if a = NaN \<or> b = NaN then NaN else if num_less a b then b else a)"

text \<open>Multiplication of a number by a finite literal.\<close>

fun times_lit :: "number \<Rightarrow> real \<Rightarrow> number" where
  "times_lit (Fin x) k = Fin (x * k)"
| "times_lit NaN k = NaN"
| "times_lit PosInf k = (if k = 0 then NaN else if 0 < k then PosInf else NegInf)"
| "times_lit NegInf k = (if k = 0 then NaN else if 0 < k then NegInf else PosInf)"

text \<open>
  Rounding of a real number to the nearest double (binary64: 53 significant bits, ties to
  the even significand, exponents from \<open>- 1022\<close>, below which the spacing stays
  \<open>2 ^ - 1074\<close>).  The arithmetic operators of the language give the rounded exact result.
  A result of magnitude \<open>2 ^ 1024\<close> or more, which is infinite in the language, is
  modelled by a real of that magnitude: it compares with every finite double as the
  infinity does.
\<close>

definition pow2 :: "int \<Rightarrow> real" where
  "pow2 e = (if 0 \<le> e then 2 ^ nat e else 1 / 2 ^ nat (- e))"

definition round_even :: "real \<Rightarrow> int" where
  "round_even y =
     (let f = \<lfloor>y\<rfloor>
      in if y - of_int f < 1 / 2 then f
         else if 1 / 2 < y - of_int f then f + 1
         else if even f then f else f + 1)"

definition fl :: "real \<Rightarrow> real" where
  "fl x =
     (if x = 0 then 0
      else let e = max \<lfloor>log 2 \<bar>x\<bar>\<rfloor> (- 1022);
               ulp = pow2 (e - 52)
           in of_int (round_even (x / ulp)) * ulp)"

text \<open>The operators \<^verbatim>\<open>+\<close>, \<^verbatim>\<open>-\<close>, \<^verbatim>\<open>*\<close> and \<^verbatim>\<open>/\<close> on finite doubles.\<close>

definition fadd :: "real \<Rightarrow> real \<Rightarrow> real" where
  "fadd x y = fl (x + y)"

definition fsub :: "real \<Rightarrow> real \<Rightarrow> real" where
  "fsub x y = fl (x - y)"

definition fmul :: "real \<Rightarrow> real \<Rightarrow> real" where
  "fmul x y = fl (x * y)"

definition fdiv :: "real \<Rightarrow> real \<Rightarrow> real" where
  "fdiv x y = fl (x / y)"

text \<open>Truncation towards zero, and the integer conversions that the typed setters apply.\<close>

definition trunc :: "real \<Rightarrow> int" where
  "trunc x = (if x < 0 then - \<lfloor>- x\<rfloor> else \<lfloor>x\<rfloor>)"

fun ToIntegerOrZero :: "number \<Rightarrow> int" where
  "ToIntegerOrZero (Fin x) = trunc x"
| "ToIntegerOrZero _ = 0"

definition ToUint8 :: "number \<Rightarrow> int" where
  "ToUint8 v = ToIntegerOrZero v mod 2 ^ 8"

definition ToUint16 :: "number \<Rightarrow> int" where
  "ToUint16 v = ToIntegerOrZero v mod 2 ^ 16"

definition ToUint32 :: "number \<Rightarrow> int" where
  "ToUint32 v = ToIntegerOrZero v mod 2 ^ 32"

definition ToInt16 :: "number \<Rightarrow> int" where
  "ToInt16 v = (let int16bit = ToIntegerOrZero v mod 2 ^ 16
                in if 2 ^ 15 \<le> int16bit then int16bit - 2 ^ 16 else int16bit)"

text \<open>Little-endian raw bytes of an integer, and the value that such bytes denote.\<close>

fun le_bytes :: "nat \<Rightarrow> int \<Rightarrow> byte list" where
  "le_bytes 0 n = []"
| "le_bytes (Suc k) n = word_of_int n # le_bytes k (n div 256)"

fun le_uint :: "byte list \<Rightarrow> int" where
  "le_uint [] = 0"
| "le_uint (b # bs) = uint b + 256 * le_uint bs"

definition le_sint16 :: "byte list \<Rightarrow> int" where
  "le_sint16 bs = (let u = le_uint bs in if 2 ^ 15 \<le> u then u - 2 ^ 16 else u)"

definition raw_bytes :: "nat \<Rightarrow> int \<Rightarrow> bool \<Rightarrow> byte list" where
  "raw_bytes k n littleEndian = (if littleEndian then le_bytes k n else rev (le_bytes k n))"

text \<open>
  A \<^verbatim>\<open>DataView\<close> over a whole \<^verbatim>\<open>ArrayBuffer\<close> is the list of the buffer's bytes.  A setter
  whose bytes would not fit inside the view throws \<^verbatim>\<open>RangeError\<close>.
\<close>

definition store_bytes :: "byte list \<Rightarrow> nat \<Rightarrow> byte list \<Rightarrow> error + byte list" where
  "store_bytes view byteOffset bs =
     (if byteOffset + length bs \<le> length view
      then Inr (take byteOffset view @ bs @ drop (byteOffset + length bs) view)
      else Inl RangeError)"

definition setUint8 :: "byte list \<Rightarrow> nat \<Rightarrow> number \<Rightarrow> error + byte list" where
  "setUint8 view byteOffset v = store_bytes view byteOffset (le_bytes 1 (ToUint8 v))"

definition setUint16 :: "byte list \<Rightarrow> nat \<Rightarrow> number \<Rightarrow> bool \<Rightarrow> error + byte list" where
  "setUint16 view byteOffset v littleEndian =
     store_bytes view byteOffset (raw_bytes 2 (ToUint16 v) littleEndian)"

definition setUint32 :: "byte list \<Rightarrow> nat \<Rightarrow> number \<Rightarrow> bool \<Rightarrow> error + byte list" where
  "setUint32 view byteOffset v littleEndian =
     store_bytes view byteOffset (raw_bytes 4 (ToUint32 v) littleEndian)"

definition setInt16 :: "byte list \<Rightarrow> nat \<Rightarrow> number \<Rightarrow> bool \<Rightarrow> error + byte list" where
  "setInt16 view byteOffset v littleEndian =
     store_bytes view byteOffset (raw_bytes 2 (ToInt16 v mod 2 ^ 16) littleEndian)"

section \<open>The WAV encoder (exporter.js)\<close>

text \<open>
  An \<^verbatim>\<open>AudioBuffer\<close>: its sample rate and one \<^verbatim>\<open>Float32Array\<close> per channel.  The platform
  guarantees at least one channel and the same length for all of them (\<open>well_formed\<close>).
\<close>

record audio_buffer =
  sampleRate :: real
  channelData :: "number list list"

definition numberOfChannels :: "audio_buffer \<Rightarrow> nat" where
  "numberOfChannels buffer = length (channelData buffer)"

definition frames :: "audio_buffer \<Rightarrow> nat" where
  "frames buffer = (case channelData buffer of [] \<Rightarrow> 0 | c # _ \<Rightarrow> length c)"

definition well_formed :: "audio_buffer \<Rightarrow> bool" where
  "well_formed buffer =
     (channelData buffer \<noteq> [] \<and> list_all (\<lambda>c. length c = frames buffer) (channelData buffer))"

definition getChannelData :: "audio_buffer \<Rightarrow> nat \<Rightarrow> error + number list" where
  "getChannelData buffer k =
     (if k < numberOfChannels buffer then Inr (channelData buffer ! k) else Inl IndexSizeError)"

text \<open>Reading a typed array past its end gives \<^verbatim>\<open>undefined\<close>, which a \<^verbatim>\<open>Float32Array\<close> stores as NaN.\<close>

definition f32_get :: "number list \<Rightarrow> nat \<Rightarrow> number" where
  "f32_get xs i = (if i < length xs then xs ! i else NaN)"

text \<open>
  \<^verbatim>\<open>_writeString(view, offset, str)\<close>: one \<^verbatim>\<open>setUint8\<close> per character code.
\<close>

fun writeString :: "byte list \<Rightarrow> nat \<Rightarrow> string \<Rightarrow> error + byte list" where
  "writeString view offset [] = Inr view"
| "writeString view offset (c # str) =
     and_then (setUint8 view offset (Fin (real (of_char c :: nat))))
       (\<lambda>view'. writeString view' (Suc offset) str)"

text \<open>
  The loop \<^verbatim>\<open>for (i = 0; i < left.length; i++)\<close> that fills the interleaved array.  A write
  past the end of a typed array is ignored, as \<open>list_update\<close> is.
\<close>

function interleave_loop :: "nat \<Rightarrow> number list \<Rightarrow> number list \<Rightarrow> number list \<Rightarrow> number list" where
  "interleave_loop i left right interleaved =
     (if i < length left
      then interleave_loop (i + 1) left right
             (interleaved[i * 2 := f32_get left i, i * 2 + 1 := f32_get right i])
      else interleaved)"
  by pat_completeness auto
termination
  by (relation "measure (\<lambda>(i, left, right, interleaved). length left - i)") auto

text \<open>The value handed to \<^verbatim>\<open>setInt16\<close> for one sample of the interleaved array.\<close>

definition scaled_sample :: "number \<Rightarrow> number" where
  "scaled_sample x =
     (let s = Math_max (Fin (- 1)) (Math_min (Fin 1) x)
      in if num_less s (Fin 0) then times_lit s 0x8000 else times_lit s 0x7FFF)"

fun write_samples :: "byte list \<Rightarrow> nat \<Rightarrow> number list \<Rightarrow> error + byte list" where
  "write_samples view offset [] = Inr view"
| "write_samples view offset (x # interleaved) =
     and_then (setInt16 view offset (scaled_sample x) True)
       (\<lambda>view'. write_samples view' (offset + 2) interleaved)"

definition interleave :: "audio_buffer \<Rightarrow> error + number list" where
  "interleave buffer =
     (if numberOfChannels buffer = 1 then getChannelData buffer 0
      else and_then (getChannelData buffer 0) (\<lambda>left.
           and_then (getChannelData buffer 1) (\<lambda>right.
             Inr (interleave_loop 0 left right (replicate (length left * 2) (Fin 0))))))"

definition audioBufferToWav :: "audio_buffer \<Rightarrow> error + byte list" where
  "audioBufferToWav buffer =
     (let numChannels = numberOfChannels buffer;
          format = (1 :: nat);
          bitsPerSample = (16 :: nat)
      in and_then (interleave buffer) (\<lambda>interleaved.
         let dataLength = length interleaved * (bitsPerSample div 8);
             headerLength = 44;
             totalLength = headerLength + dataLength;
             view = replicate totalLength (0 :: byte)
         in and_then (writeString view 0 ''RIFF'') (\<lambda>view.
            and_then (setUint32 view 4 (Fin (real totalLength - 8)) True) (\<lambda>view.
            and_then (writeString view 8 ''WAVE'') (\<lambda>view.
            and_then (writeString view 12 ''fmt '') (\<lambda>view.
            and_then (setUint32 view 16 (Fin 16) True) (\<lambda>view.
            and_then (setUint16 view 20 (Fin (real format)) True) (\<lambda>view.
            and_then (setUint16 view 22 (Fin (real numChannels)) True) (\<lambda>view.
            and_then (setUint32 view 24 (Fin (sampleRate buffer)) True) (\<lambda>view.
            and_then (setUint32 view 28
                        (Fin (sampleRate buffer * real numChannels * real (bitsPerSample div 8))) True) (\<lambda>view.
            and_then (setUint16 view 32 (Fin (real numChannels * real (bitsPerSample div 8))) True) (\<lambda>view.
            and_then (setUint16 view 34 (Fin (real bitsPerSample)) True) (\<lambda>view.
            and_then (writeString view 36 ''data'') (\<lambda>view.
            and_then (setUint32 view 40 (Fin (real dataLength)) True) (\<lambda>view.
            write_samples view 44 interleaved)))))))))))))))"

declare interleave_loop.simps [simp del]

subsection \<open>The container layout and the quantisation rule, as the specification words them\<close>

text \<open>
  The samples of the data sub-chunk in file order: sample \<open>j\<close> belongs to channel
  \<open>j mod c\<close> and frame \<open>j div c\<close>.
\<close>

definition interleaved_frames :: "audio_buffer \<Rightarrow> number list" where
  "interleaved_frames buffer =
     map (\<lambda>j. channelData buffer ! (j mod numberOfChannels buffer) ! (j div numberOfChannels buffer))
       [0..<frames buffer * numberOfChannels buffer]"

definition ascii :: "string \<Rightarrow> byte list" where
  "ascii str = map (\<lambda>c. word_of_nat (of_char c)) str"

text \<open>The two bytes that the sample loop stores for one sample.\<close>

definition pcm16 :: "number \<Rightarrow> byte list" where
  "pcm16 x = le_bytes 2 (ToInt16 (scaled_sample x))"

text \<open>The 44 header bytes in terms of the values that the setters receive.\<close>

definition header_fields :: "audio_buffer \<Rightarrow> nat \<Rightarrow> byte list" where
  "header_fields buffer d =
     ascii ''RIFF'' @ le_bytes 4 (ToUint32 (Fin (real (44 + d) - 8))) @ ascii ''WAVE'' @
     ascii ''fmt '' @ le_bytes 4 (ToUint32 (Fin 16)) @ le_bytes 2 (ToUint16 (Fin 1)) @
     le_bytes 2 (ToUint16 (Fin (real (numberOfChannels buffer)))) @
     le_bytes 4 (ToUint32 (Fin (sampleRate buffer))) @
     le_bytes 4 (ToUint32 (Fin (sampleRate buffer * real (numberOfChannels buffer) * 2))) @
     le_bytes 2 (ToUint16 (Fin (real (numberOfChannels buffer) * 2))) @
     le_bytes 2 (ToUint16 (Fin 16)) @ ascii ''data'' @ le_bytes 4 (ToUint32 (Fin (real d)))"

text \<open>
  The RIFF/WAVE file for \<open>c\<close> channels, sample rate \<open>r\<close>, \<open>n\<close> frames per channel and a
  given payload.  A field of \<open>k\<close> bytes holds its value modulo \<open>256 ^ k\<close>.
\<close>

definition riff_wave :: "nat \<Rightarrow> nat \<Rightarrow> nat \<Rightarrow> byte list \<Rightarrow> byte list" where
  "riff_wave c r n payload =
     ascii ''RIFF'' @ le_bytes 4 (int (44 + n * c * 2) - 8) @ ascii ''WAVE'' @
     ascii ''fmt '' @ le_bytes 4 16 @ le_bytes 2 1 @ le_bytes 2 (int c) @ le_bytes 4 (int r) @
     le_bytes 4 (int (r * c * 2)) @ le_bytes 2 (int (c * 2)) @ le_bytes 2 16 @
     ascii ''data'' @ le_bytes 4 (int (n * c * 2)) @ payload"

text \<open>
  Clamping to \<open>[-1, 1]\<close> (an infinite sample is clamped to the nearer bound; NaN has no
  position relative to the interval and is left unspecified), then the asymmetric scaling
  and the truncation.
\<close>

fun clamp_unit :: "number \<Rightarrow> real" where
  "clamp_unit (Fin x) = max (- 1) (min 1 x)"
| "clamp_unit PosInf = 1"
| "clamp_unit NegInf = - 1"

definition quantize :: "number \<Rightarrow> int" where
  "quantize s = (let c = clamp_unit s in trunc (if c < 0 then c * 32768 else c * 32767))"

text \<open>Sample \<open>i\<close> of the data sub-chunk of a file, read as a little-endian signed 16-bit integer.\<close>

definition data_sample :: "byte list \<Rightarrow> nat \<Rightarrow> int" where
  "data_sample wav i = le_sint16 (take 2 (drop (44 + 2 * i) wav))"

section \<open>Clips, the Recorder module and the AudioEngine module\<close>

text \<open>
  A clip is a mutable object; the Recorder's array, every array returned by
  \<^verbatim>\<open>getAllClips\<close> and every scheduler hold references to the same objects.  Objects live
  in a heap (a list indexed by reference, extended at allocation).  Times and gains are
  finite doubles, each modelled by the real number it denotes.  Comparisons and
  \<^verbatim>\<open>Math.max\<close> are exact on them; a sum, a difference, a product or a quotient is the
  rounded one (\<open>fadd\<close>, \<open>fsub\<close>, \<open>fmul\<close>, \<open>fdiv\<close>).  A decimal literal of the program such as
  \<^verbatim>\<open>0.8\<close> stands for the double it denotes; gains are stored and compared, never computed
  with.  Clip ids are counted in the naturals: the counter
  \<^verbatim>\<open>nextClipId\<close> stays exact for the first \<open>2 ^ 53\<close> recordings.
\<close>

type_synonym clip_ref = nat

record clip =
  clip_id :: nat
  startTime :: real
  duration :: real
  audioBuffer :: "audio_buffer option"

datatype recorder_state = Inactive | Recording

text \<open>An element \<^verbatim>\<open>{ source, gainNode, clipId }\<close> of \<^verbatim>\<open>activeClipSources\<close>.\<close>

record source_entry =
  source :: nat
  gainNode :: real
  clipId :: nat

text \<open>What the playback backend receives with one \<^verbatim>\<open>source.start(0, offset)\<close>.\<close>

record playback =
  node :: nat
  played_clip :: nat
  played_offset :: real
  played_gain :: real

text \<open>The closure returned by \<^verbatim>\<open>createClipScheduler\<close>: the captured array and the set \<^verbatim>\<open>started\<close>.\<close>

record scheduler =
  captured :: "clip_ref list"
  started :: "nat set"

datatype console_entry = MicAccessDenied | FailedToDecode error

text \<open>
  The module-level variables of Recorder (\<open>clips\<close> to \<open>onRecordingComplete\<close>), of
  AudioEngine (\<open>audioContext\<close> to \<open>clipGains\<close>) and of the application (\<open>clipScheduler\<close>),
  the heap of clip objects, and what the program has sent to the playback backend and to
  the console.  \<open>onRecordingComplete\<close> tells whether the application's handler, the only
  one in the repository, is registered.
\<close>

record state =
  heap :: "clip list"
  clips :: "clip_ref list"
  nextClipId :: nat
  isRecording :: bool
  recordStartTime :: real
  chunks :: "nat list"
  mediaStream :: bool
  mediaRecorder :: "recorder_state option"
  onRecordingComplete :: bool
  audioContext :: bool
  masterGain :: "real option"
  activeClipSources :: "source_entry list"
  clipGains :: "nat \<rightharpoonup> real"
  clipScheduler :: "scheduler option"
  next_node :: nat
  playbacks :: "playback list"
  stops :: "nat list"
  console :: "console_entry list"

definition initial :: state where
  "initial =
     \<lparr>heap = [], clips = [], nextClipId = 1, isRecording = False, recordStartTime = 0,
      chunks = [], mediaStream = False, mediaRecorder = None, onRecordingComplete = False,
      audioContext = False, masterGain = None, activeClipSources = [], clipGains = Map.empty,
      clipScheduler = None, next_node = 0, playbacks = [], stops = [], console = []\<rparr>"

subsection \<open>AudioEngine\<close>

definition init :: "state \<Rightarrow> state" where
  "init s = s\<lparr>audioContext := True, masterGain := Some 0.8\<rparr>"

definition getClipGain :: "state \<Rightarrow> nat \<Rightarrow> real" where
  "getClipGain s c = (case clipGains s c of Some g \<Rightarrow> g | None \<Rightarrow> 0.8)"

text \<open>\<^verbatim>\<open>_playClip(clip, offset)\<close>.\<close>

definition playClip :: "clip_ref \<Rightarrow> real \<Rightarrow> state \<Rightarrow> state" where
  "playClip r offset s =
     (let c = heap s ! r
      in if \<not> audioContext s \<or> audioBuffer c = None then s
         else let vol = (case clipGains s (clip_id c) of Some g \<Rightarrow> g | None \<Rightarrow> 0.8)
              in s\<lparr>activeClipSources := activeClipSources s @
                       [\<lparr>source = next_node s, gainNode = vol, clipId = clip_id c\<rparr>],
                    playbacks := playbacks s @
                       [\<lparr>node = next_node s, played_clip = clip_id c, played_offset = offset,
                         played_gain = vol\<rparr>],
                    next_node := next_node s + 1\<rparr>)"

text \<open>The handler \<^verbatim>\<open>source.onended\<close> of the node \<open>n\<close>.\<close>

definition onended :: "nat \<Rightarrow> state \<Rightarrow> state" where
  "onended n s = s\<lparr>activeClipSources := filter (\<lambda>e. source e \<noteq> n) (activeClipSources s)\<rparr>"

definition stopAllClips :: "state \<Rightarrow> state" where
  "stopAllClips s =
     s\<lparr>stops := stops s @ map source (activeClipSources s), activeClipSources := []\<rparr>"

text \<open>
  \<^verbatim>\<open>activeClipSources.find(s => s.clipId === clipId)\<close> followed by the assignment to the
  found entry's gain: the first matching entry is updated in place.
\<close>

fun set_found_gain :: "nat \<Rightarrow> real \<Rightarrow> source_entry list \<Rightarrow> source_entry list" where
  "set_found_gain c vol [] = []"
| "set_found_gain c vol (e # es) =
     (if clipId e = c then e\<lparr>gainNode := vol\<rparr> # es else e # set_found_gain c vol es)"

definition setClipVolume :: "nat \<Rightarrow> real \<Rightarrow> state \<Rightarrow> state" where
  "setClipVolume c vol s =
     s\<lparr>clipGains := (clipGains s)(c \<mapsto> vol),
       activeClipSources := set_found_gain c vol (activeClipSources s)\<rparr>"

definition setMasterVolume :: "real \<Rightarrow> state \<Rightarrow> state" where
  "setMasterVolume vol s = (if masterGain s \<noteq> None then s\<lparr>masterGain := Some vol\<rparr> else s)"

definition createClipScheduler :: "clip_ref list \<Rightarrow> scheduler" where
  "createClipScheduler cs = \<lparr>captured = cs, started = {}\<rparr>"

text \<open>The body of \<^verbatim>\<open>checkTime\<close>: \<^verbatim>\<open>clips.forEach\<close> over the captured array.\<close>

fun checkTime_each :: "clip_ref list \<Rightarrow> real \<Rightarrow> nat set \<Rightarrow> state \<Rightarrow> nat set \<times> state" where
  "checkTime_each [] currentTime st s = (st, s)"
| "checkTime_each (r # rs) currentTime st s =
     (let c = heap s ! r; clipEnd = fadd (startTime c) (duration c)
      in if startTime c \<le> currentTime \<and> currentTime < clipEnd \<and> clip_id c \<notin> st
         then checkTime_each rs currentTime (insert (clip_id c) st)
                (playClip r (fsub currentTime (startTime c)) s)
         else checkTime_each rs currentTime st s)"

definition checkTime :: "scheduler \<Rightarrow> real \<Rightarrow> state \<Rightarrow> scheduler \<times> state" where
  "checkTime sch currentTime s =
     (case checkTime_each (captured sch) currentTime (started sch) s of
        (st, s') \<Rightarrow> (sch\<lparr>started := st\<rparr>, s'))"

fun playClipsAtTime_each :: "clip_ref list \<Rightarrow> real \<Rightarrow> state \<Rightarrow> state" where
  "playClipsAtTime_each [] currentTime s = s"
| "playClipsAtTime_each (r # rs) currentTime s =
     (let c = heap s ! r; clipEnd = fadd (startTime c) (duration c)
      in if startTime c \<le> currentTime \<and> currentTime < clipEnd
         then playClipsAtTime_each rs currentTime (playClip r (fsub currentTime (startTime c)) s)
         else playClipsAtTime_each rs currentTime s)"

definition playClipsAtTime :: "clip_ref list \<Rightarrow> real \<Rightarrow> state \<Rightarrow> state" where
  "playClipsAtTime cs currentTime s = playClipsAtTime_each cs currentTime (stopAllClips s)"

subsection \<open>Recorder\<close>

definition getAllClips :: "state \<Rightarrow> clip_ref list" where
  "getAllClips s = clips s"

definition hasRecordings :: "state \<Rightarrow> bool" where
  "hasRecordings s = (0 < length (clips s))"

definition deleteClip :: "nat \<Rightarrow> state \<Rightarrow> state" where
  "deleteClip i s = s\<lparr>clips := filter (\<lambda>r. clip_id (heap s ! r) \<noteq> i) (clips s)\<rparr>"

definition moveClip :: "nat \<Rightarrow> real \<Rightarrow> state \<Rightarrow> state" where
  "moveClip i newStart s =
     (case find (\<lambda>r. clip_id (heap s ! r) = i) (clips s) of
        None \<Rightarrow> s
      | Some r \<Rightarrow> s\<lparr>heap := (heap s)[r := (heap s ! r)\<lparr>startTime := max 0 newStart\<rparr>]\<rparr>)"

definition getClip :: "nat \<Rightarrow> state \<Rightarrow> clip_ref option" where
  "getClip i s = find (\<lambda>r. clip_id (heap s ! r) = i) (clips s)"

text \<open>
  \<^verbatim>\<open>stopRecording\<close>: \<^verbatim>\<open>mediaRecorder.stop()\<close> makes the recorder inactive; its
  \<^verbatim>\<open>dataavailable\<close> and \<^verbatim>\<open>stop\<close> events arrive later, as calls of the two handlers below.
\<close>

definition stopRecording :: "state \<Rightarrow> state" where
  "stopRecording s =
     (if mediaRecorder s = Some Recording then s\<lparr>mediaRecorder := Some Inactive\<rparr> else s)
       \<lparr>isRecording := False\<rparr>"

text \<open>
  \<^verbatim>\<open>startRecording(startTime)\<close>; \<open>granted\<close> is the answer of the capture device should
  \<^verbatim>\<open>requestMic\<close> be called.
\<close>

definition startRecording :: "real \<Rightarrow> bool \<Rightarrow> state \<Rightarrow> bool \<times> state" where
  "startRecording t granted s =
     (let s1 = (if isRecording s then stopRecording s else s)
      in if \<not> mediaStream s1 \<and> \<not> granted
         then (False, s1\<lparr>console := console s1 @ [MicAccessDenied]\<rparr>)
         else (True, s1\<lparr>mediaStream := True, recordStartTime := t, chunks := [],
                        isRecording := True, mediaRecorder := Some Recording\<rparr>))"

definition ondataavailable :: "nat \<Rightarrow> state \<Rightarrow> state" where
  "ondataavailable sz s = (if 0 < sz then s\<lparr>chunks := chunks s @ [sz]\<rparr> else s)"

definition buffer_duration :: "audio_buffer \<Rightarrow> real" where
  "buffer_duration b = fdiv (real (frames b)) (sampleRate b)"

subsection \<open>The application (orchestrator)\<close>

text \<open>
  \<^verbatim>\<open>_restartClipPlayback()\<close>; \<open>playing\<close> and \<open>time\<close> are what \<^verbatim>\<open>VideoPlayer.isPlaying()\<close>
  and \<^verbatim>\<open>VideoPlayer.getTime()\<close> return.
\<close>

definition restartClipPlayback :: "bool \<Rightarrow> real \<Rightarrow> state \<Rightarrow> state" where
  "restartClipPlayback playing time s =
     (let s1 = stopAllClips s
      in if playing \<and> hasRecordings s1
         then (case checkTime (createClipScheduler (getAllClips s1)) time s1 of
                 (sch, s2) \<Rightarrow> s2\<lparr>clipScheduler := Some sch\<rparr>)
         else s1\<lparr>clipScheduler := None\<rparr>)"

text \<open>The time-update callback: \<^verbatim>\<open>if (clipScheduler) clipScheduler(currentTime)\<close>.\<close>

definition onTimeUpdate :: "real \<Rightarrow> state \<Rightarrow> state" where
  "onTimeUpdate currentTime s =
     (case clipScheduler s of
        None \<Rightarrow> s
      | Some sch \<Rightarrow> (case checkTime sch currentTime s of
                      (sch', s') \<Rightarrow> s'\<lparr>clipScheduler := Some sch'\<rparr>))"

text \<open>The handler registered with \<^verbatim>\<open>Recorder.setOnRecordingComplete\<close>, for the new clip \<open>r\<close>.\<close>

definition recordingComplete :: "clip_ref \<Rightarrow> bool \<Rightarrow> real \<Rightarrow> state \<Rightarrow> state" where
  "recordingComplete r playing time s =
     restartClipPlayback playing time (setClipVolume (clip_id (heap s ! r)) 0.8 s)"

text \<open>The handlers registered with the recording timeline for deleting and moving a clip.\<close>

definition onClipDelete :: "nat \<Rightarrow> bool \<Rightarrow> real \<Rightarrow> state \<Rightarrow> state" where
  "onClipDelete i playing time s = restartClipPlayback playing time (deleteClip i s)"

definition onClipMove :: "nat \<Rightarrow> real \<Rightarrow> bool \<Rightarrow> real \<Rightarrow> state \<Rightarrow> state" where
  "onClipMove i newStart playing time s = restartClipPlayback playing time (moveClip i newStart s)"

text \<open>
  \<^verbatim>\<open>mediaRecorder.onstop\<close>.  The outcome of \<^verbatim>\<open>decodeAudioData\<close> on the recorded blob is the
  parameter \<open>decoded\<close>; the handler is taken to run to completion once the decoder has
  answered.
\<close>

definition onstop :: "error + audio_buffer \<Rightarrow> bool \<Rightarrow> real \<Rightarrow> state \<Rightarrow> state" where
  "onstop decoded playing time s =
     (if length (chunks s) = 0 then s
      else (case decoded of
              Inr b \<Rightarrow>
                (let r = length (heap s);
                     c = \<lparr>clip_id = nextClipId s, startTime = recordStartTime s,
                          duration = buffer_duration b, audioBuffer = Some b\<rparr>;
                     s1 = s\<lparr>nextClipId := nextClipId s + 1, heap := heap s @ [c],
                            clips := clips s @ [r]\<rparr>;
                     s2 = (if onRecordingComplete s1 then recordingComplete r playing time s1 else s1)
                 in s2\<lparr>isRecording := False\<rparr>)
            | Inl err \<Rightarrow> s\<lparr>console := console s @ [FailedToDecode err], isRecording := False\<rparr>))"

subsection \<open>Calls and events reaching the three modules\<close>

text \<open>
  The calls of the functions that Recorder and AudioEngine export and that change their
  state, the events that the browser delivers to their handlers, and the two places where
  the application drives the scheduler: \<^verbatim>\<open>_restartClipPlayback\<close> and the time-update
  callback.  \<^verbatim>\<open>playClipsAtTime\<close> is taken with the store's current clips as its argument.
  Each call or handler runs to completion before the next one starts.
\<close>

datatype event =
    Init
  | SetOnRecordingComplete
  | StartRecording real bool
  | DataAvailable nat
  | StopRecording
  | OnStop "error + audio_buffer" bool real
  | DeleteClip nat
  | MoveClip nat real
  | SetClipVolume nat real
  | SetMasterVolume real
  | StopAllClips
  | PlayClipsAtTime real
  | Ended nat
  | Restart bool real
  | Tick real

fun step :: "event \<Rightarrow> state \<Rightarrow> state" where
  "step Init s = init s"
| "step SetOnRecordingComplete s = s\<lparr>onRecordingComplete := True\<rparr>"
| "step (StartRecording t granted) s = snd (startRecording t granted s)"
| "step (DataAvailable sz) s = ondataavailable sz s"
| "step StopRecording s = stopRecording s"
| "step (OnStop decoded playing time) s = onstop decoded playing time s"
| "step (DeleteClip i) s = deleteClip i s"
| "step (MoveClip i newStart) s = moveClip i newStart s"
| "step (SetClipVolume c vol) s = setClipVolume c vol s"
| "step (SetMasterVolume vol) s = setMasterVolume vol s"
| "step StopAllClips s = stopAllClips s"
| "step (PlayClipsAtTime currentTime) s = playClipsAtTime (getAllClips s) currentTime s"
| "step (Ended n) s = onended n s"
| "step (Restart playing time) s = restartClipPlayback playing time s"
| "step (Tick currentTime) s = onTimeUpdate currentTime s"

fun run :: "event list \<Rightarrow> state \<Rightarrow> state" where
  "run [] s = s"
| "run (e # es) s = run es (step e s)"

section \<open>The recordings export (exporter.js)\<close>

text \<open>
  The recordings export of exporter.js.  Its effects are the alerts shown, the calls of
  \<^verbatim>\<open>_emit\<close> (stage and rounded percentage), the files handed to \<^verbatim>\<open>_downloadBlob\<close> and the
  exception that ends the call, if any.
\<close>

datatype stage = Preparing | Mixing | Rendering | Encoding | Done

record export_effects =
  alerts :: "string list"
  progress :: "(stage \<times> int) list"
  downloads :: "(string \<times> byte list) list"
  thrown :: "error option"

definition no_effects :: export_effects where
  "no_effects = \<lparr>alerts = [], progress = [], downloads = [], thrown = None\<rparr>"

definition Math_round :: "real \<Rightarrow> int" where
  "Math_round x = \<lfloor>x + 1 / 2\<rfloor>"

definition emit :: "stage \<Rightarrow> real \<Rightarrow> export_effects \<Rightarrow> export_effects" where
  "emit st pct fx = fx\<lparr>progress := progress fx @ [(st, Math_round pct)]\<rparr>"

text \<open>A source node scheduled on the offline context: its buffer, its gain and its start time.\<close>

type_synonym scheduled = "audio_buffer option \<times> real \<times> real"

text \<open>
  The loop \<^verbatim>\<open>clips.forEach((clip, i) => \<dots>)\<close> of the export, from index \<open>i\<close> on; \<open>n\<close> is
  \<^verbatim>\<open>clips.length\<close>.  \<^verbatim>\<open>source.start\<close> throws \<^verbatim>\<open>RangeError\<close> for a negative time.
\<close>

fun mix_each ::
  "state \<Rightarrow> nat \<Rightarrow> nat \<Rightarrow> clip_ref list \<Rightarrow> scheduled list \<Rightarrow> export_effects \<Rightarrow> scheduled list \<times> export_effects"
where
  "mix_each s n i [] srcs fx = (srcs, fx)"
| "mix_each s n i (r # rs) srcs fx =
     (let c = heap s ! r
      in if startTime c < 0 then (srcs, fx\<lparr>thrown := Some RangeError\<rparr>)
         else mix_each s n (i + 1) rs
                (srcs @ [(audioBuffer c, getClipGain s (clip_id c), startTime c)])
                (emit Mixing (fmul (fdiv (real i) (real n)) 60) fx))"

text \<open>
  \<^verbatim>\<open>downloadRecordedAudio\<close>.  The rendering backend is the parameter \<open>offline\<close>: constructing
  an \<^verbatim>\<open>OfflineAudioContext\<close> for a channel count, a length and a sample rate either throws or
  gives a context, which renders the scheduled sources to a buffer or throws.
  \<open>videoDuration\<close> is what \<^verbatim>\<open>VideoPlayer.getDuration()\<close> returns.
\<close>

definition downloadRecordedAudio ::
  "(nat \<Rightarrow> int \<Rightarrow> real \<Rightarrow> error + (scheduled list \<Rightarrow> error + audio_buffer)) \<Rightarrow> real \<Rightarrow> state \<Rightarrow> export_effects"
where
  "downloadRecordedAudio offline videoDuration s =
     (let cs = getAllClips s
      in if length cs = 0 then no_effects\<lparr>alerts := [''No recordings to export.'']\<rparr>
         else
           let fx = emit Preparing 0 no_effects
           in (case audioBuffer (heap s ! (cs ! 0)) of
                 None \<Rightarrow> fx\<lparr>thrown := Some TypeError\<rparr>
               | Some first \<Rightarrow>
                   let rate = sampleRate first;
                       totalSamples = \<lceil>fmul videoDuration rate\<rceil>
                   in (case offline 1 totalSamples rate of
                         Inl e \<Rightarrow> fx\<lparr>thrown := Some e\<rparr>
                       | Inr startRendering \<Rightarrow>
                           (case mix_each s (length cs) 0 cs [] fx of
                              (srcs, fx1) \<Rightarrow>
                                if thrown fx1 \<noteq> None then fx1
                                else
                                  let fx2 = emit Rendering 60 fx1
                                  in (case startRendering srcs of
                                        Inl e \<Rightarrow> fx2\<lparr>thrown := Some e\<rparr>
                                      | Inr rendered \<Rightarrow>
                                          let fx3 = emit Encoding 85 fx2
                                          in (case audioBufferToWav rendered of
                                                Inl e \<Rightarrow> fx3\<lparr>thrown := Some e\<rparr>
                                              | Inr wav \<Rightarrow>
                                                  emit Done 100
                                                    (fx3\<lparr>downloads := downloads fx3 @
                                                       [(''thiptines-day-recordings.wav'', wav)]\<rparr>)))))))"

section \<open>Notions used to state the properties\<close>

subsection \<open>The scheduler\<close>

text \<open>
  The window \<open>[startTime, startTime + duration)\<close> of a clip; its end is the sum as the
  program forms it.
\<close>

definition in_window :: "clip \<Rightarrow> real \<Rightarrow> bool" where
  "in_window c t = (startTime c \<le> t \<and> t < fadd (startTime c) (duration c))"

text \<open>The playbacks that the backend received between the states \<open>s\<close> and \<open>s'\<close>.\<close>

definition new_playbacks :: "state \<Rightarrow> state \<Rightarrow> playback list" where
  "new_playbacks s s' = drop (length (playbacks s)) (playbacks s')"

text \<open>
  The ids that are due at time \<open>t\<close>: those of the clips among \<open>rs\<close> whose window contains
  \<open>t\<close> and that are not in the set \<open>st\<close> of ids already started.
\<close>

definition due :: "clip_ref list \<Rightarrow> nat set \<Rightarrow> real \<Rightarrow> state \<Rightarrow> nat set" where
  "due rs st t s =
     {clip_id (heap s ! r) | r. r \<in> set rs \<and> in_window (heap s ! r) t \<and> clip_id (heap s ! r) \<notin> st}"




subsection \<open>The clip store and the gains\<close>

text \<open>The ids that \<^verbatim>\<open>getAllClips\<close> lists, and the ids of all clip objects ever created.\<close>

definition clip_ids :: "state \<Rightarrow> nat list" where
  "clip_ids s = map (\<lambda>r. clip_id (heap s ! r)) (getAllClips s)"

definition created :: "state \<Rightarrow> nat list" where
  "created s = map clip_id (heap s)"

text \<open>The invariant behind the uniqueness of ids.\<close>

definition ids_inv :: "state \<Rightarrow> bool" where
  "ids_inv s = (created s = [1..<nextClipId s] \<and> 1 \<le> nextClipId s \<and> distinct (clips s) \<and>
                (\<forall>r\<in>set (clips s). r < length (heap s)))"

text \<open>The invariant behind the default gain of an id for which no gain was ever set.\<close>

definition default_inv :: "nat \<Rightarrow> state \<Rightarrow> bool" where
  "default_inv c s =
     ((clipGains s c = None \<or> clipGains s c = Some 0.8) \<and>
      (\<forall>p\<in>set (playbacks s). played_clip p = c \<longrightarrow> played_gain p = 0.8))"

text \<open>
  What a caller reads, in state \<open>s\<close>, through an array of clip references that it holds:
  the array is the caller's own (it was made by \<^verbatim>\<open>slice\<close>), its elements are the clip
  objects of the heap.
\<close>

definition observe :: "state \<Rightarrow> clip_ref list \<Rightarrow> clip list" where
  "observe s snapshot = map (\<lambda>r. heap s ! r) snapshot"

text \<open>
  The start time that an event gives to the clip object \<open>r\<close>: only \<^verbatim>\<open>moveClip\<close> for the
  object's id, called while the object is in the store, gives one.  \<open>moved_to\<close> is the start
  time given by the last such call in a sequence of events that starts in the state \<open>s\<close>.
\<close>

fun move_of :: "clip_ref \<Rightarrow> event \<Rightarrow> state \<Rightarrow> real option" where
  "move_of r (MoveClip i newStart) s =
     (if i = clip_id (heap s ! r) \<and> r \<in> set (clips s) then Some (max 0 newStart) else None)"
| "move_of r _ s = None"

fun moved_to :: "clip_ref \<Rightarrow> event list \<Rightarrow> state \<Rightarrow> real option" where
  "moved_to r [] s = None"
| "moved_to r (e # es) s =
     (case moved_to r es (step e s) of Some x \<Rightarrow> Some x | None \<Rightarrow> move_of r e s)"

subsection \<open>Examples\<close>

text \<open>A buffer of three seconds, and a complete recording gesture that starts at video time \<open>t\<close>.\<close>

definition three_seconds :: audio_buffer where
  "three_seconds = \<lparr>sampleRate = 1, channelData = [[Fin 0, Fin 0, Fin 0]]\<rparr>"

definition record_clip :: "real \<Rightarrow> event list" where
  "record_clip t = [StartRecording t True, DataAvailable 5, StopRecording, OnStop (Inr three_seconds) False 0]"

text \<open>
  The state of the specification's scheduler example: the audio engine is initialised and
  one recording of three seconds, made at video time 2, gave the clip with id 1.
\<close>

definition example_state :: state where
  "example_state =
     run [Init, StartRecording 2 True, DataAvailable 1, StopRecording, OnStop (Inr three_seconds) False 0]
       initial"

text \<open>The buffer of the specification's encoder example: one channel, 8000 Hz.\<close>

definition example_buffer :: audio_buffer where
  "example_buffer =
     \<lparr>sampleRate = 8000, channelData = [[Fin 0, Fin 0.5, Fin (- 0.5), Fin 1, Fin (- 1)]]\<rparr>"

definition stereo_buffer :: audio_buffer where
  "stereo_buffer =
     \<lparr>sampleRate = 44100, channelData = [[Fin 1, Fin 0], [Fin (- 1), Fin 0.25]]\<rparr>"

text \<open>A rendering backend for examples: it accepts every context and renders \<open>example_buffer\<close>.\<close>

definition example_backend :: "nat \<Rightarrow> int \<Rightarrow> real \<Rightarrow> error + (scheduled list \<Rightarrow> error + audio_buffer)" where
  "example_backend channels len rate = Inr (\<lambda>srcs. Inr example_buffer)"

section \<open>Properties of the rounding\<close>

lemma pow2_powr: "pow2 e = 2 powr of_int e"
  by (simp add: pow2_def powr_int)

lemma floor_log2_eq:
  assumes "pow2 e \<le> \<bar>x\<bar>" "\<bar>x\<bar> < pow2 (e + 1)"
  shows "\<lfloor>log 2 \<bar>x\<bar>\<rfloor> = e"
proof -
  have pos: "0 < \<bar>x\<bar>" using assms(1) unfolding pow2_powr by (smt (verit) powr_gt_zero)
  have "of_int e \<le> log 2 \<bar>x\<bar>" using assms(1) pos unfolding pow2_powr by (simp add: le_log_iff)
  moreover have "log 2 \<bar>x\<bar> < of_int (e + 1)"
    using assms(2) pos unfolding pow2_powr by (simp add: log_less_iff)
  ultimately show ?thesis by (simp add: floor_eq_iff)
qed

text \<open>The rounding of a number whose binary exponent is known.\<close>

lemma fl_in_binade:
  assumes "pow2 e \<le> \<bar>x\<bar>" "\<bar>x\<bar> < pow2 (e + 1)" "- 1022 \<le> e"
  shows "fl x = of_int (round_even (x / pow2 (e - 52))) * pow2 (e - 52)"
proof -
  have "x \<noteq> 0" using assms(1) unfolding pow2_powr by (smt (verit) powr_gt_zero)
  then show ?thesis
    using floor_log2_eq [OF assms(1,2)] assms(3) by (simp add: fl_def Let_def max_def)
qed

lemma round_even_error: "\<bar>of_int (round_even y) - y\<bar> \<le> 1 / 2"
  by (simp add: round_even_def Let_def)

lemma pow2_pos: "0 < pow2 e"
  by (simp add: pow2_powr)

lemma pow2_add: "pow2 (a + b) = pow2 a * pow2 b"
  by (simp add: pow2_powr powr_add)

lemma pow2_floor_log: "x \<noteq> 0 \<Longrightarrow> pow2 \<lfloor>log 2 \<bar>x\<bar>\<rfloor> \<le> \<bar>x\<bar>"
  unfolding pow2_powr
  by (smt (verit, best) of_int_floor_le powr_le_iff zero_less_abs_iff one_less_numeral_iff semiring_norm(76) le_log_iff)

text \<open>In the range of the normal doubles the rounding error is at most \<open>2 ^ - 53\<close>, relatively.\<close>

lemma fl_error:
  assumes "pow2 (- 1022) \<le> \<bar>x\<bar>"
  shows "\<bar>fl x - x\<bar> \<le> \<bar>x\<bar> * pow2 (- 53)"
proof -
  have nz: "x \<noteq> 0" using assms pow2_pos [of "- 1022"] by auto
  define e where "e = \<lfloor>log 2 \<bar>x\<bar>\<rfloor>"
  have lo: "pow2 e \<le> \<bar>x\<bar>" unfolding e_def using nz by (rule pow2_floor_log)
  have "of_int (- 1022) \<le> log 2 \<bar>x\<bar>"
    using assms nz unfolding pow2_powr by (simp add: le_log_iff)
  then have ge: "- 1022 \<le> e" unfolding e_def by (simp add: le_floor_iff)
  define u where "u = pow2 (e - 52)"
  have u: "0 < u" unfolding u_def by (rule pow2_pos)
  have f: "fl x = of_int (round_even (x / u)) * u"
    using nz ge by (simp add: fl_def Let_def e_def [symmetric] u_def max_def)
  have "fl x - x = (of_int (round_even (x / u)) - x / u) * u"
    using u by (simp add: f field_simps)
  then have "\<bar>fl x - x\<bar> = \<bar>of_int (round_even (x / u)) - x / u\<bar> * u"
    using u by (simp add: abs_mult)
  also have "\<dots> \<le> 1 / 2 * u" using round_even_error [of "x / u"] u by (intro mult_right_mono) simp_all
  also have "1 / 2 * u = pow2 e * pow2 (- 53)"
    using pow2_add [of e "- 53"] pow2_add [of "e - 52" "- 1"]  by (simp add: u_def pow2_def [of "- 1"])
  also have "\<dots> \<le> \<bar>x\<bar> * pow2 (- 53)" using lo pow2_pos [of "- 53"] by (intro mult_right_mono) simp_all
  finally show ?thesis .
qed

text \<open>Small integers and one half are doubles.\<close>

lemma fl_0: "fl 0 = 0"
  by (simp add: fl_def)

lemma fl_1: "fl 1 = 1"
  using fl_in_binade [of 0 1] by (simp add: round_even_def pow2_def)

lemma fl_3: "fl 3 = 3"
  using fl_in_binade [of 1 3] by (simp add: round_even_def pow2_def)

lemma fl_5: "fl 5 = 5"
  using fl_in_binade [of 2 5] by (simp add: round_even_def pow2_def)

lemma fl_10: "fl 10 = 10"
  using fl_in_binade [of 3 10] by (simp add: round_even_def pow2_def)

lemma fl_half: "fl (1 / 2) = 1 / 2"
  using fl_in_binade [of "- 1" "1 / 2"] by (simp add: round_even_def pow2_def)

lemmas fl_values = fl_0 fl_1 fl_3 fl_5 fl_10 fl_half




section \<open>Properties of the WAV encoder\<close>

lemma le_uint_le_bytes: "le_uint (le_bytes k n) = n mod 256 ^ k"
proof (induction k arbitrary: n)
  case 0 show ?case by simp
next
  case (Suc k)
  have "le_uint (le_bytes (Suc k) n) = n mod 256 + 256 * ((n div 256) mod 256 ^ k)"
    by (simp add: Suc uint_word_of_int)
  also have "\<dots> = n mod 256 ^ Suc k"
    by (simp add: zmod_zmult2_eq)
  finally show ?case .
qed

lemma wrap16_in_range:
  fixes k :: int
  assumes "- 32768 \<le> k" "k \<le> 32767"
  shows "(let i = k mod 2 ^ 16 in if 2 ^ 15 \<le> i then i - 2 ^ 16 else i) = k"
proof (cases "k < 0")
  case True
  have "k mod 65536 = (k + 65536) mod 65536" by simp
  also have "\<dots> = k + 65536" using assms True by (intro mod_pos_pos_trivial) auto
  finally show ?thesis using assms True by (simp add: Let_def)
next
  case False
  then have "k mod 65536 = k" using assms by (intro mod_pos_pos_trivial) auto
  then show ?thesis using assms False by (simp add: Let_def)
qed

lemma trunc_scaled_bounds:
  assumes "- 1 \<le> x" "x \<le> 1"
  shows "- 32768 \<le> trunc (if x < 0 then x * 32768 else x * 32767)"
    and "trunc (if x < 0 then x * 32768 else x * 32767) \<le> 32767"
  using assms by (auto simp add: trunc_def) linarith+

lemma ToInt16_mod: "ToInt16 v mod 2 ^ 16 = ToIntegerOrZero v mod 2 ^ 16"
  by (simp add: ToInt16_def Let_def)

lemma le_sint16_setInt16: "le_sint16 (le_bytes 2 (ToInt16 v mod 2 ^ 16)) = ToInt16 v"
  by (simp only: le_sint16_def le_uint_le_bytes ToInt16_mod) (simp add: ToInt16_def Let_def)



lemma interleave_loop_length: "length (interleave_loop i left right acc) = length acc"
  by (induction i left right acc rule: interleave_loop.induct)
     (subst interleave_loop.simps, simp)

lemma interleave_loop_nth:
  "length acc = 2 * length left \<Longrightarrow> length right = length left \<Longrightarrow> j < 2 * length left \<Longrightarrow>
   interleave_loop i left right acc ! j =
     (if j < 2 * i then acc ! j else if even j then left ! (j div 2) else right ! (j div 2))"
proof (induction i left right acc rule: interleave_loop.induct)
  case (1 i left right acc)
  show ?case
  proof (cases "i < length left")
    case True
    let ?acc = "acc[i * 2 := f32_get left i, i * 2 + 1 := f32_get right i]"
    have step: "interleave_loop i left right acc = interleave_loop (i + 1) left right ?acc"
      using True by (subst interleave_loop.simps) simp
    have ih: "interleave_loop (i + 1) left right ?acc ! j =
      (if j < 2 * (i + 1) then ?acc ! j else if even j then left ! (j div 2) else right ! (j div 2))"
      using "1.IH" [OF True] "1.prems" by simp
    have a: "j < 2 * i \<Longrightarrow> ?acc ! j = acc ! j" by simp
    have b: "?acc ! (2 * i) = left ! i"
      using True "1.prems" by (simp add: f32_get_def mult.commute)
    have c: "?acc ! (2 * i + 1) = right ! i"
      using True "1.prems" by (simp add: f32_get_def mult.commute)
    have "j < 2 * i \<or> j = 2 * i \<or> j = 2 * i + 1 \<or> 2 * (i + 1) \<le> j" by arith
    then consider "j < 2 * i" | "j = 2 * i" | "j = 2 * i + 1" | "2 * (i + 1) \<le> j" by blast
    then show ?thesis
    proof cases
      case 1 then show ?thesis using step ih a by simp
    next
      case 2 then show ?thesis using step ih b by simp
    next
      case 3 then show ?thesis using step ih c by simp
    next
      case 4 then show ?thesis using step ih by simp
    qed
  next
    case False
    then have "interleave_loop i left right acc = acc"
      by (subst interleave_loop.simps) simp
    moreover have "j < 2 * i" using False "1.prems" by simp
    ultimately show ?thesis by simp
  qed
qed

lemma interleave_mono:
  assumes "well_formed buffer" "numberOfChannels buffer = 1"
  shows "interleave buffer = Inr (interleaved_frames buffer)"
proof -
  obtain c where c: "channelData buffer = [c]"
    using assms by (cases "channelData buffer") (auto simp add: numberOfChannels_def)
  have "map (\<lambda>j. c ! j) [0..<length c] = c" by (rule map_nth)
  then show ?thesis
    using c by (simp add: interleave_def getChannelData_def numberOfChannels_def interleaved_frames_def frames_def)
qed

lemma interleave_stereo:
  assumes "well_formed buffer" "numberOfChannels buffer = 2"
  shows "interleave buffer = Inr (interleaved_frames buffer)"
proof -
  obtain l r where c: "channelData buffer = [l, r]"
    using assms by (cases "channelData buffer"; cases "tl (channelData buffer)") (auto simp add: numberOfChannels_def)
  have len: "length r = length l" using assms c by (simp add: well_formed_def frames_def)
  let ?res = "interleave_loop 0 l r (replicate (length l * 2) (Fin 0))"
  have "?res = interleaved_frames buffer"
  proof (rule nth_equalityI)
    show "length ?res = length (interleaved_frames buffer)"
      using c by (simp add: interleave_loop_length interleaved_frames_def frames_def numberOfChannels_def)
  next
    fix j assume "j < length ?res"
    then have j: "j < 2 * length l" by (simp add: interleave_loop_length)
    have "?res ! j = (if even j then l ! (j div 2) else r ! (j div 2))"
      using interleave_loop_nth [of "replicate (length l * 2) (Fin 0)" l r j 0] len j by simp
    moreover have "interleaved_frames buffer ! j = [l, r] ! (j mod 2) ! (j div 2)"
      using j c by (simp add: interleaved_frames_def frames_def numberOfChannels_def mult.commute numeral_2_eq_2)
    moreover have "[l, r] ! (j mod 2) = (if even j then l else r)"
      by (cases "even j") (auto simp add: odd_iff_mod_2_eq_one)
    ultimately show "?res ! j = interleaved_frames buffer ! j" by simp
  qed
  then show ?thesis
    using c by (simp add: interleave_def getChannelData_def numberOfChannels_def and_then_def)
qed



lemma length_le_bytes [simp]: "length (le_bytes k n) = k"
  by (induction k arbitrary: n) auto

lemma byte_of_mod: "(word_of_int (n mod (256 * m)) :: byte) = word_of_int n"
proof -
  have "(n mod (256 * m)) mod 2 ^ 8 = n mod 2 ^ 8"
    by (simp add: mod_mod_cancel)
  then show ?thesis
    by (simp add: word_of_int_eq_iff take_bit_eq_mod)
qed
  
lemma le_bytes_mod: "le_bytes k (n mod 256 ^ k) = le_bytes k n"
proof (induction k arbitrary: n)
  case 0 show ?case by simp
next
  case (Suc k)
  have "(n mod (256 * 256 ^ k)) div 256 = (n div 256) mod 256 ^ k"
    by (simp add: zmod_zmult2_eq)
  then show ?case using Suc [of "n div 256"] by (simp add: byte_of_mod)
qed

lemma store_fill:
  "length pre = off \<Longrightarrow> length bs \<le> m \<Longrightarrow>
   store_bytes (pre @ replicate m 0) off bs = Inr ((pre @ bs) @ replicate (m - length bs) 0)"
  by (simp add: store_bytes_def)

lemma char_byte: "le_bytes 1 (ToUint8 (Fin (real (of_char c :: nat)))) = [word_of_nat (of_char c)]"
  using byte_of_mod [of "int (of_char c)" 1]
  by (simp add: ToUint8_def trunc_def numeral_eq_Suc)

lemma writeString_fill:
  "length pre = off \<Longrightarrow> length str \<le> m \<Longrightarrow>
   writeString (pre @ replicate m 0) off str = Inr ((pre @ ascii str) @ replicate (m - length str) 0)"
proof (induction str arbitrary: pre off m)
  case Nil
  then show ?case by (simp add: ascii_def)
next
  case (Cons c str)
  let ?b = "word_of_nat (of_char c) :: byte"
  obtain m' where m: "m = Suc m'" using Cons.prems by (cases m) auto
  have "setUint8 (pre @ replicate m 0) off (Fin (real (of_char c :: nat))) = Inr ((pre @ [?b]) @ replicate m' 0)"
    unfolding setUint8_def char_byte using Cons.prems m by (simp add: store_bytes_def)
  moreover have "writeString ((pre @ [?b]) @ replicate m' 0) (Suc off) str
     = Inr (((pre @ [?b]) @ ascii str) @ replicate (m' - length str) 0)"
    using Cons.prems m by (intro Cons.IH) auto
  ultimately show ?case using m by (simp add: and_then_def ascii_def)
qed

lemma setInt16_bytes: "raw_bytes 2 (ToInt16 v mod 2 ^ 16) True = le_bytes 2 (ToInt16 v)"
  using le_bytes_mod [of 2 "ToInt16 v"] by (simp add: raw_bytes_def)

lemma write_samples_fill:
  "length pre = off \<Longrightarrow> 2 * length xs \<le> m \<Longrightarrow>
   write_samples (pre @ replicate m 0) off xs
     = Inr ((pre @ concat (map pcm16 xs)) @ replicate (m - 2 * length xs) 0)"
proof (induction xs arbitrary: pre off m)
  case Nil
  then show ?case by simp
next
  case (Cons x xs)
  have "setInt16 (pre @ replicate m 0) off (scaled_sample x) True = Inr ((pre @ pcm16 x) @ replicate (m - 2) 0)"
    unfolding setInt16_def setInt16_bytes pcm16_def
    using Cons.prems by (intro store_fill [THEN trans]) auto
  moreover have "write_samples ((pre @ pcm16 x) @ replicate (m - 2) 0) (off + 2) xs
     = Inr (((pre @ pcm16 x) @ concat (map pcm16 xs)) @ replicate (m - 2 - 2 * length xs) 0)"
    using Cons.prems by (intro Cons.IH) (auto simp add: pcm16_def)
  ultimately show ?case by (simp add: and_then_def)
qed



lemma setUint32_fill:
  "length pre = off \<Longrightarrow> 4 \<le> m \<Longrightarrow>
   setUint32 (pre @ replicate m 0) off v True = Inr ((pre @ le_bytes 4 (ToUint32 v)) @ replicate (m - 4) 0)"
  unfolding setUint32_def raw_bytes_def by (simp only: if_True) (rule store_fill [THEN trans], auto)

lemma setUint16_fill:
  "length pre = off \<Longrightarrow> 2 \<le> m \<Longrightarrow>
   setUint16 (pre @ replicate m 0) off v True = Inr ((pre @ le_bytes 2 (ToUint16 v)) @ replicate (m - 2) 0)"
  unfolding setUint16_def raw_bytes_def by (simp only: if_True) (rule store_fill [THEN trans], auto)

lemma writeString_start:
  "length str \<le> m \<Longrightarrow> writeString (replicate m 0) 0 str = Inr (ascii str @ replicate (m - length str) 0)"
  using writeString_fill [of "[]" 0 str m] by simp

lemma length_ascii [simp]: "length (ascii str) = length str"
  by (simp add: ascii_def)

lemma length_header_fields: "length (header_fields buffer d) = 44"
  by (simp add: header_fields_def del: le_bytes.simps)

lemma audioBufferToWav_bytes:
  assumes "interleave buffer = Inr xs"
  shows "audioBufferToWav buffer = Inr (header_fields buffer (2 * length xs) @ concat (map pcm16 xs))"
proof -
  define d where "d = 2 * length xs"
  define v1 where "v1 = ascii ''RIFF''"
  define v2 where "v2 = v1 @ le_bytes 4 (ToUint32 (Fin (real (44 + d) - 8)))"
  define v3 where "v3 = v2 @ ascii ''WAVE''"
  define v4 where "v4 = v3 @ ascii ''fmt ''"
  define v5 where "v5 = v4 @ le_bytes 4 (ToUint32 (Fin 16))"
  define v6 where "v6 = v5 @ le_bytes 2 (ToUint16 (Fin 1))"
  define v7 where "v7 = v6 @ le_bytes 2 (ToUint16 (Fin (real (numberOfChannels buffer))))"
  define v8 where "v8 = v7 @ le_bytes 4 (ToUint32 (Fin (sampleRate buffer)))"
  define v9 where "v9 = v8 @ le_bytes 4 (ToUint32 (Fin (sampleRate buffer * real (numberOfChannels buffer) * 2)))"
  define v10 where "v10 = v9 @ le_bytes 2 (ToUint16 (Fin (real (numberOfChannels buffer) * 2)))"
  define v11 where "v11 = v10 @ le_bytes 2 (ToUint16 (Fin 16))"
  define v12 where "v12 = v11 @ ascii ''data''"
  define v13 where "v13 = v12 @ le_bytes 4 (ToUint32 (Fin (real d)))"
  have l1: "length v1 = 4" by (simp add: v1_def)
  have l2: "length v2 = 8" by (simp add: v2_def l1 del: le_bytes.simps)
  have l3: "length v3 = 12" by (simp add: v3_def l2)
  have l4: "length v4 = 16" by (simp add: v4_def l3)
  have l5: "length v5 = 20" by (simp add: v5_def l4 del: le_bytes.simps)
  have l6: "length v6 = 22" by (simp add: v6_def l5 del: le_bytes.simps)
  have l7: "length v7 = 24" by (simp add: v7_def l6 del: le_bytes.simps)
  have l8: "length v8 = 28" by (simp add: v8_def l7 del: le_bytes.simps)
  have l9: "length v9 = 32" by (simp add: v9_def l8 del: le_bytes.simps)
  have l10: "length v10 = 34" by (simp add: v10_def l9 del: le_bytes.simps)
  have l11: "length v11 = 36" by (simp add: v11_def l10 del: le_bytes.simps)
  have l12: "length v12 = 40" by (simp add: v12_def l11)
  have l13: "length v13 = 44" by (simp add: v13_def l12 del: le_bytes.simps)
  have s1: "writeString (replicate (44 + d) 0) 0 ''RIFF'' = Inr (v1 @ replicate (40 + d) 0)"
    unfolding v1_def by (rule writeString_start [THEN trans]) auto
  have s2: "setUint32 (v1 @ replicate (40 + d) 0) 4 (Fin (real (44 + d) - 8)) True = Inr (v2 @ replicate (36 + d) 0)"
    unfolding v2_def using l1 by (rule setUint32_fill [THEN trans]) auto
  have s3: "writeString (v2 @ replicate (36 + d) 0) 8 ''WAVE'' = Inr (v3 @ replicate (32 + d) 0)"
    unfolding v3_def using l2 by (rule writeString_fill [THEN trans]) auto
  have s4: "writeString (v3 @ replicate (32 + d) 0) 12 ''fmt '' = Inr (v4 @ replicate (28 + d) 0)"
    unfolding v4_def using l3 by (rule writeString_fill [THEN trans]) auto
  have s5: "setUint32 (v4 @ replicate (28 + d) 0) 16 (Fin 16) True = Inr (v5 @ replicate (24 + d) 0)"
    unfolding v5_def using l4 by (rule setUint32_fill [THEN trans]) auto
  have s6: "setUint16 (v5 @ replicate (24 + d) 0) 20 (Fin 1) True = Inr (v6 @ replicate (22 + d) 0)"
    unfolding v6_def using l5 by (rule setUint16_fill [THEN trans]) auto
  have s7: "setUint16 (v6 @ replicate (22 + d) 0) 22 (Fin (real (numberOfChannels buffer))) True
      = Inr (v7 @ replicate (20 + d) 0)"
    unfolding v7_def using l6 by (rule setUint16_fill [THEN trans]) auto
  have s8: "setUint32 (v7 @ replicate (20 + d) 0) 24 (Fin (sampleRate buffer)) True
      = Inr (v8 @ replicate (16 + d) 0)"
    unfolding v8_def using l7 by (rule setUint32_fill [THEN trans]) auto
  have s9: "setUint32 (v8 @ replicate (16 + d) 0) 28
        (Fin (sampleRate buffer * real (numberOfChannels buffer) * 2)) True
      = Inr (v9 @ replicate (12 + d) 0)"
    unfolding v9_def using l8 by (rule setUint32_fill [THEN trans]) auto
  have s10: "setUint16 (v9 @ replicate (12 + d) 0) 32 (Fin (real (numberOfChannels buffer) * 2)) True
      = Inr (v10 @ replicate (10 + d) 0)"
    unfolding v10_def using l9 by (rule setUint16_fill [THEN trans]) auto
  have s11: "setUint16 (v10 @ replicate (10 + d) 0) 34 (Fin 16) True = Inr (v11 @ replicate (8 + d) 0)"
    unfolding v11_def using l10 by (rule setUint16_fill [THEN trans]) auto
  have s12: "writeString (v11 @ replicate (8 + d) 0) 36 ''data'' = Inr (v12 @ replicate (4 + d) 0)"
    unfolding v12_def using l11 by (rule writeString_fill [THEN trans]) auto
  have s13: "setUint32 (v12 @ replicate (4 + d) 0) 40 (Fin (real d)) True = Inr (v13 @ replicate d 0)"
    unfolding v13_def using l12 by (rule setUint32_fill [THEN trans]) auto
  have s14: "write_samples (v13 @ replicate d 0) 44 xs = Inr (v13 @ concat (map pcm16 xs))"
    using l13 by (rule write_samples_fill [THEN trans]) (auto simp add: d_def)
  have hdr: "header_fields buffer d = v13"
    by (simp only: header_fields_def v13_def v12_def v11_def v10_def v9_def v8_def v7_def v6_def
          v5_def v4_def v3_def v2_def v1_def append_assoc)
  have "audioBufferToWav buffer = Inr (v13 @ concat (map pcm16 xs))"
    unfolding audioBufferToWav_def Let_def assms and_then_def
    using s1 s2 s3 s4 s5 s6 s7 s8 s9 s10 s11 s12 s13 s14
    by (simp add: d_def mult.commute del: writeString.simps write_samples.simps)
  then show ?thesis unfolding hdr [symmetric] d_def .
qed



lemma trunc_of_nat: "trunc (real k) = int k"
  by (simp add: trunc_def)

lemma length_pcm16_concat: "length (concat (map pcm16 xs)) = 2 * length xs"
  by (induction xs) (simp_all add: pcm16_def del: le_bytes.simps)

lemma ToUint32_nat: "le_bytes 4 (ToUint32 (Fin (real k))) = le_bytes 4 (int k)"
  using le_bytes_mod [of 4 "int k"] by (simp add: ToUint32_def trunc_of_nat)

lemma ToUint16_nat: "le_bytes 2 (ToUint16 (Fin (real k))) = le_bytes 2 (int k)"
  using le_bytes_mod [of 2 "int k"] by (simp add: ToUint16_def trunc_of_nat)

lemma length_interleaved_frames:
  "length (interleaved_frames buffer) = frames buffer * numberOfChannels buffer"
  by (simp add: interleaved_frames_def)

lemma interleave_frames:
  assumes "well_formed buffer" "numberOfChannels buffer = 1 \<or> numberOfChannels buffer = 2"
  shows "interleave buffer = Inr (interleaved_frames buffer)"
  using assms interleave_mono interleave_stereo by blast

lemma header_fields_riff:
  assumes "sampleRate buffer = real r" "numberOfChannels buffer = c"
  shows "header_fields buffer (2 * (n * c)) @ payload = riff_wave c r n payload"
proof -
  have f1: "le_bytes 4 (ToUint32 (Fin (real (44 + 2 * (n * c)) - 8))) = le_bytes 4 (int (44 + n * c * 2) - 8)"
    using ToUint32_nat [of "36 + n * c * 2"] by (simp add: mult.commute)
  have f2: "le_bytes 4 (ToUint32 (Fin 16)) = le_bytes 4 16"
    using ToUint32_nat [of 16] by simp
  have f3: "le_bytes 2 (ToUint16 (Fin 1)) = le_bytes 2 1"
    using ToUint16_nat [of 1] by simp
  have f4: "le_bytes 4 (ToUint32 (Fin (real r * real c * 2))) = le_bytes 4 (int (r * c * 2))"
    using ToUint32_nat [of "r * c * 2"] by simp
  have f5: "le_bytes 2 (ToUint16 (Fin (real c * 2))) = le_bytes 2 (int (c * 2))"
    using ToUint16_nat [of "c * 2"] by simp
  have f6: "le_bytes 2 (ToUint16 (Fin 16)) = le_bytes 2 16"
    using ToUint16_nat [of 16] by simp
  have f7: "le_bytes 4 (ToUint32 (Fin (real (2 * (n * c))))) = le_bytes 4 (int (n * c * 2))"
    using ToUint32_nat [of "n * c * 2"] by (simp add: mult.commute)
  show ?thesis
    unfolding header_fields_def riff_wave_def assms f1 f2 f3 f4 f5 f6 f7 ToUint32_nat ToUint16_nat
    by (simp only: append_assoc mult.commute [of 2 "n * c"])
qed

text \<open>
  Claim C2.  For a buffer with \<open>c\<close> channels (\<open>c\<close> one or two), integral sample rate \<open>r\<close>
  and \<open>n\<close> frames per channel, the encoder returns exactly the \<open>44 + n * c * 2\<close> bytes of
  \<open>riff_wave\<close>: \<open>RIFF\<close>, the total size minus 8, \<open>WAVE\<close>, the \<open>fmt\<close> sub-chunk of size 16
  with format code 1, \<open>c\<close>, \<open>r\<close>, byte rate \<open>r * c * 2\<close>, block align \<open>c * 2\<close> and 16 bits per
  sample, then \<open>data\<close>, the length \<open>n * c * 2\<close> and the interleaved little-endian 16-bit
  samples.  The result is an expression in the input buffer alone, so encoding the same
  buffer again gives the same bytes.
\<close>

theorem wav_layout:
  assumes "well_formed buffer" and "numberOfChannels buffer = c" and "c = 1 \<or> c = 2"
    and "sampleRate buffer = real r" and "frames buffer = n"
  shows "audioBufferToWav buffer
           = Inr (riff_wave c r n (concat (map pcm16 (interleaved_frames buffer)))) \<and>
         length (riff_wave c r n (concat (map pcm16 (interleaved_frames buffer)))) = 44 + n * c * 2"
proof -
  let ?xs = "interleaved_frames buffer"
  have len: "length ?xs = n * c" using assms by (simp add: length_interleaved_frames)
  have "interleave buffer = Inr ?xs" using assms by (intro interleave_frames) auto
  then have "audioBufferToWav buffer = Inr (header_fields buffer (2 * (n * c)) @ concat (map pcm16 ?xs))"
    using audioBufferToWav_bytes [of buffer ?xs] len by simp
  then have 1: "audioBufferToWav buffer = Inr (riff_wave c r n (concat (map pcm16 ?xs)))"
    using header_fields_riff [of buffer r c n] assms by simp
  have 2: "length (riff_wave c r n (concat (map pcm16 ?xs))) = 44 + n * c * 2"
    using len by (simp add: riff_wave_def length_pcm16_concat del: le_bytes.simps)
  from 1 2 show ?thesis by simp
qed

lemma ToInt16_scaled:
  assumes "- 1 \<le> c" "c \<le> 1"
  shows "ToInt16 (Fin (if c < 0 then c * 32768 else c * 32767)) = trunc (if c < 0 then c * 32768 else c * 32767)"
  unfolding ToInt16_def ToIntegerOrZero.simps
  using trunc_scaled_bounds [OF assms] by (intro wrap16_in_range) auto

lemma clamp_unit_bounds: "s \<noteq> NaN \<Longrightarrow> - 1 \<le> clamp_unit s \<and> clamp_unit s \<le> 1"
  by (cases s) auto

lemma scaled_sample_clamp:
  "s \<noteq> NaN \<Longrightarrow> scaled_sample s = Fin (if clamp_unit s < 0 then clamp_unit s * 32768 else clamp_unit s * 32767)"
  by (cases s) (auto simp add: scaled_sample_def Math_min_def Math_max_def Let_def min_def max_def)

lemma ToInt16_quantize: "s \<noteq> NaN \<Longrightarrow> ToInt16 (scaled_sample s) = quantize s"
  using clamp_unit_bounds [of s] ToInt16_scaled [of "clamp_unit s"]
  by (simp add: scaled_sample_clamp quantize_def Let_def)

lemma ToInt16_range: "- 32768 \<le> ToInt16 v \<and> ToInt16 v \<le> 32767"
proof -
  have "0 \<le> ToIntegerOrZero v mod 2 ^ 16" "ToIntegerOrZero v mod 2 ^ 16 < 2 ^ 16"
    by simp_all
  then show ?thesis by (auto simp add: ToInt16_def Let_def)
qed

lemma le_sint16_pcm16: "le_sint16 (pcm16 s) = ToInt16 (scaled_sample s)"
  unfolding pcm16_def le_sint16_def le_uint_le_bytes
  using ToInt16_range [of "scaled_sample s"] wrap16_in_range [of "ToInt16 (scaled_sample s)"] by simp

lemma take_drop_concat2:
  "(\<And>x. length (f x) = 2) \<Longrightarrow> i < length xs \<Longrightarrow> take 2 (drop (2 * i) (concat (map f xs))) = f (xs ! i)"
proof (induction xs arbitrary: i)
  case Nil then show ?case by simp
next
  case (Cons x xs)
  show ?case
  proof (cases i)
    case 0 then show ?thesis using Cons.prems(1) [of x] by simp
  next
    case (Suc j)
    then have "take 2 (drop (2 * j) (concat (map f xs))) = f (xs ! j)"
      using Cons by auto
    then show ?thesis using Suc Cons.prems(1) [of x] by simp
  qed
qed

lemma ex_frames: "interleaved_frames example_buffer = [Fin 0, Fin 0.5, Fin (- 0.5), Fin 1, Fin (- 1)]"
  by (simp add: interleaved_frames_def example_buffer_def frames_def numberOfChannels_def upt_rec)

lemma le_bytes_2: "le_bytes 2 n = [word_of_int n, word_of_int (n div 256)]"
  by (simp add: numeral_2_eq_2)

lemma le_bytes_4:
  "le_bytes 4 n = [word_of_int n, word_of_int (n div 256), word_of_int (n div 256 div 256),
                   word_of_int (n div 256 div 256 div 256)]"
  by (simp add: eval_nat_numeral)

lemma ex_wav: "riff_wave 1 8000 5 (concat (map pcm16 [Fin 0, Fin 0.5, Fin (- 0.5), Fin 1, Fin (- 1)])) = 
 [82, 73, 70, 70, 46, 0, 0, 0, 87, 65, 86, 69, 102, 109, 116, 32, 16, 0, 0, 0, 1, 0, 1, 0, 64, 31, 0, 0, 128, 62, 0, 0, 2, 0, 16, 0, 100, 97, 116, 97, 10, 0, 0, 0, 0, 0, 255, 63, 0, 192, 255, 127, 0, 128]"
  by (simp add: riff_wave_def ascii_def pcm16_def scaled_sample_def Math_min_def Math_max_def ToInt16_def trunc_def le_bytes_2 le_bytes_4 del: le_bytes.simps)

lemma ex_wf: "well_formed example_buffer \<and> numberOfChannels example_buffer = 1 \<and> frames example_buffer = 5 \<and> sampleRate example_buffer = real 8000"
  by (simp add: well_formed_def example_buffer_def numberOfChannels_def frames_def)

lemma pcm16_NaN: "pcm16 NaN = [0, 0]"
  by (simp add: pcm16_def scaled_sample_def Math_min_def Math_max_def ToInt16_def le_bytes_2
        del: le_bytes.simps)

lemma stereo_frames:
  "interleaved_frames stereo_buffer = [Fin 1, Fin (- 1), Fin 0, Fin 0.25]"
proof -
  have u: "[0..<4] = [0, 1, 2, 3 :: nat]" by (simp add: upt_rec)
  have c: "numberOfChannels stereo_buffer = 2" "frames stereo_buffer = 2"
    by (simp_all add: stereo_buffer_def frames_def numberOfChannels_def)
  have d: "channelData stereo_buffer = [[Fin 1, Fin 0], [Fin (- 1), Fin 0.25]]"
    by (simp add: stereo_buffer_def)
  show ?thesis
    unfolding interleaved_frames_def c d by (simp add: u)
qed

lemma stereo_wf:
  "well_formed stereo_buffer \<and> numberOfChannels stereo_buffer = 2 \<and> frames stereo_buffer = 2 \<and>
   sampleRate stereo_buffer = real 44100"
  by (simp add: well_formed_def stereo_buffer_def numberOfChannels_def frames_def)

lemma stereo_wav:
  "riff_wave 2 44100 2 (concat (map pcm16 [Fin 1, Fin (- 1), Fin 0, Fin 0.25])) =
     [82, 73, 70, 70, 44, 0, 0, 0, 87, 65, 86, 69, 102, 109, 116, 32, 16, 0, 0, 0, 1, 0, 2, 0,
      68, 172, 0, 0, 16, 177, 2, 0, 4, 0, 16, 0, 100, 97, 116, 97, 8, 0, 0, 0,
      255, 127, 0, 128, 0, 0, 255, 31]"
  by (simp add: riff_wave_def ascii_def pcm16_def scaled_sample_def Math_min_def Math_max_def
        ToInt16_def trunc_def le_bytes_2 le_bytes_4 del: le_bytes.simps)

theorem wav_layout_witness:
  "well_formed example_buffer \<and> numberOfChannels example_buffer = 1 \<and>
   sampleRate example_buffer = real 8000 \<and> frames example_buffer = 5 \<and>
   audioBufferToWav example_buffer = Inr
     [82, 73, 70, 70, 46, 0, 0, 0, 87, 65, 86, 69, 102, 109, 116, 32, 16, 0, 0, 0, 1, 0, 1, 0,
      64, 31, 0, 0, 128, 62, 0, 0, 2, 0, 16, 0, 100, 97, 116, 97, 10, 0, 0, 0,
      0, 0, 255, 63, 0, 192, 255, 127, 0, 128] \<and>
   well_formed stereo_buffer \<and> numberOfChannels stereo_buffer = 2 \<and>
   sampleRate stereo_buffer = real 44100 \<and> frames stereo_buffer = 2 \<and>
   audioBufferToWav stereo_buffer = Inr
     [82, 73, 70, 70, 44, 0, 0, 0, 87, 65, 86, 69, 102, 109, 116, 32, 16, 0, 0, 0, 1, 0, 2, 0,
      68, 172, 0, 0, 16, 177, 2, 0, 4, 0, 16, 0, 100, 97, 116, 97, 8, 0, 0, 0,
      255, 127, 0, 128, 0, 0, 255, 31]"
  using wav_layout [of example_buffer 1 8000 5] ex_wf ex_wav ex_frames
    wav_layout [of stereo_buffer 2 44100 2] stereo_wf stereo_wav stereo_frames
  by simp

text \<open>
  Claim C1.  For a buffer of one or two channels, the encoder returns a file whose data
  sub-chunk holds, at sample position \<open>i\<close>, the little-endian signed 16-bit integer got from
  sample \<open>i\<close> of the interleaved input by clamping it to \<open>[-1, 1]\<close>, multiplying by 32768
  when the clamped value is negative and by 32767 otherwise, and truncating towards zero.
  The rule speaks of numbers, so the sample is assumed not to be NaN (for NaN the program
  stores 0, see \<open>pcm16_NaN\<close>).  The instance of this theorem at the buffer
  \<open>[0.0, 0.5, -0.5, 1.0, -1.0]\<close>, one channel, 8000 Hz, gives the data
  \<open>[0, 16383, -16384, 32767, -32768]\<close>.
\<close>

theorem wav_quantization:
  assumes "well_formed buffer"
    and "numberOfChannels buffer = 1 \<or> numberOfChannels buffer = 2"
    and "i < length (interleaved_frames buffer)"
    and "interleaved_frames buffer ! i \<noteq> NaN"
  shows "\<exists>wav. audioBufferToWav buffer = Inr wav \<and>
           data_sample wav i = quantize (interleaved_frames buffer ! i)"
proof -
  let ?xs = "interleaved_frames buffer"
  let ?hdr = "header_fields buffer (2 * length ?xs)"
  have "interleave buffer = Inr ?xs" using assms by (intro interleave_frames) auto
  then have wav: "audioBufferToWav buffer = Inr (?hdr @ concat (map pcm16 ?xs))"
    by (rule audioBufferToWav_bytes)
  have "drop (44 + 2 * i) (?hdr @ concat (map pcm16 ?xs)) = drop (2 * i) (concat (map pcm16 ?xs))"
    by (simp add: length_header_fields)
  moreover have "take 2 (drop (2 * i) (concat (map pcm16 ?xs))) = pcm16 (?xs ! i)"
    using assms(3) by (intro take_drop_concat2) (simp_all add: pcm16_def del: le_bytes.simps)
  ultimately have "data_sample (?hdr @ concat (map pcm16 ?xs)) i = le_sint16 (pcm16 (?xs ! i))"
    by (simp add: data_sample_def)
  also have "\<dots> = quantize (?xs ! i)"
    using assms(4) by (simp add: le_sint16_pcm16 ToInt16_quantize)
  finally show ?thesis using wav by blast
qed

theorem wav_quantization_witness:
  "well_formed example_buffer \<and> numberOfChannels example_buffer = 1 \<and>
   interleaved_frames example_buffer = [Fin 0, Fin 0.5, Fin (- 0.5), Fin 1, Fin (- 1)] \<and>
   (\<exists>wav. audioBufferToWav example_buffer = Inr wav \<and>
      map (data_sample wav) [0, 1, 2, 3, 4] = [0, 16383, - 16384, 32767, - 32768])"
proof -
  have q: "map quantize [Fin 0, Fin 0.5, Fin (- 0.5), Fin 1, Fin (- 1)] = [0, 16383, - 16384, 32767, - 32768]"
    by (simp add: quantize_def trunc_def)
  have s: "\<exists>wav. audioBufferToWav example_buffer = Inr wav \<and>
           data_sample wav i = quantize (interleaved_frames example_buffer ! i)" if "i < 5" for i
    using that ex_wf by (intro wav_quantization) (auto simp add: ex_frames nth_Cons')
  show ?thesis using s [of 0] s [of 1] s [of 2] s [of 3] s [of 4] ex_wf ex_frames q by auto
qed

section \<open>Properties of one tick and of runs without reset\<close>

lemma playClip_frame:
  "heap (playClip r off s) = heap s" "clipGains (playClip r off s) = clipGains s"
  "audioContext (playClip r off s) = audioContext s" "clips (playClip r off s) = clips s"
  "nextClipId (playClip r off s) = nextClipId s" "clipScheduler (playClip r off s) = clipScheduler s"
  by (simp_all add: playClip_def Let_def)

lemma playClip_playbacks:
  "playbacks (playClip r off s) =
     playbacks s @ (if audioContext s \<and> audioBuffer (heap s ! r) \<noteq> None
                    then [\<lparr>node = next_node s, played_clip = clip_id (heap s ! r), played_offset = off,
                           played_gain = getClipGain s (clip_id (heap s ! r))\<rparr>] else [])"
  by (simp add: playClip_def Let_def getClipGain_def)

lemma checkTime_each_frame:
  "checkTime_each rs t st s = (st', s') \<Longrightarrow>
     heap s' = heap s \<and> clipGains s' = clipGains s \<and> audioContext s' = audioContext s \<and>
     clips s' = clips s \<and> nextClipId s' = nextClipId s \<and> clipScheduler s' = clipScheduler s"
proof (induction rs arbitrary: st s)
  case Nil then show ?case by simp
next
  case (Cons r rs)
  show ?case
  proof (cases "startTime (heap s ! r) \<le> t \<and> t < fadd (startTime (heap s ! r)) (duration (heap s ! r)) \<and> clip_id (heap s ! r) \<notin> st")
    case True
    then have "checkTime_each rs t (insert (clip_id (heap s ! r)) st) (playClip r (fsub t (startTime (heap s ! r))) s) = (st', s')"
      using Cons.prems by (simp add: Let_def)
    from Cons.IH [OF this] show ?thesis by (simp add: playClip_frame)
  next
    case False
    then have "checkTime_each rs t st s = (st', s')"
      using Cons.prems by (auto simp add: Let_def)
    from Cons.IH [OF this] show ?thesis .
  qed
qed

lemma checkTime_each_started:
  "checkTime_each rs t st s = (st', s') \<Longrightarrow> st' = st \<union> due rs st t s"
proof (induction rs arbitrary: st s)
  case Nil then show ?case by (simp add: due_def)
next
  case (Cons r rs)
  let ?c = "heap s ! r"
  show ?case
  proof (cases "in_window ?c t \<and> clip_id ?c \<notin> st")
    case True
    let ?s1 = "playClip r (fsub t (startTime ?c)) s"
    have "checkTime_each rs t (insert (clip_id ?c) st) ?s1 = (st', s')"
      using True Cons.prems by (simp add: Let_def in_window_def)
    from Cons.IH [OF this] have "st' = insert (clip_id ?c) st \<union> due rs (insert (clip_id ?c) st) t ?s1" .
    moreover have "due rs (insert (clip_id ?c) st) t ?s1 \<union> {clip_id ?c} = due (r # rs) st t s"
      using True by (auto simp add: due_def playClip_frame)
    ultimately show ?thesis by auto
  next
    case False
    then have "checkTime_each rs t st s = (st', s')"
      using Cons.prems by (auto simp add: Let_def in_window_def)
    from Cons.IH [OF this] have "st' = st \<union> due rs st t s" .
    moreover have "due (r # rs) st t s = due rs st t s"
      using False by (auto simp add: due_def)
    ultimately show ?thesis by simp
  qed
qed

lemma checkTime_each_playbacks:
  "checkTime_each rs t st s = (st', s') \<Longrightarrow>
   \<exists>new. playbacks s' = playbacks s @ new \<and> distinct (map played_clip new) \<and>
         played_clip ` set new \<subseteq> due rs st t s \<and>
         (audioContext s \<and> (\<forall>r\<in>set rs. audioBuffer (heap s ! r) \<noteq> None) \<longrightarrow> played_clip ` set new = due rs st t s) \<and>
         (\<forall>p\<in>set new. \<exists>r\<in>set rs. played_clip p = clip_id (heap s ! r) \<and> in_window (heap s ! r) t \<and>
              played_offset p = fsub t (startTime (heap s ! r)) \<and> played_gain p = getClipGain s (played_clip p))"
proof (induction rs arbitrary: st s)
  case Nil then show ?case by (simp add: due_def)
next
  case (Cons r rs)
  let ?c = "heap s ! r"
  show ?case
  proof (cases "in_window ?c t \<and> clip_id ?c \<notin> st")
    case True
    let ?s1 = "playClip r (fsub t (startTime ?c)) s"
    let ?st1 = "insert (clip_id ?c) st"
    let ?one = "(if audioContext s \<and> audioBuffer ?c \<noteq> None
                    then [\<lparr>node = next_node s, played_clip = clip_id ?c, played_offset = fsub t (startTime ?c),
                           played_gain = getClipGain s (clip_id ?c)\<rparr>] else [])"
    have run: "checkTime_each rs t ?st1 ?s1 = (st', s')"
      using True Cons.prems by (simp add: Let_def in_window_def)
    from Cons.IH [OF this] obtain new where new:
      "playbacks s' = playbacks ?s1 @ new" "distinct (map played_clip new)"
      "played_clip ` set new \<subseteq> due rs ?st1 t ?s1"
      "audioContext ?s1 \<and> (\<forall>r\<in>set rs. audioBuffer (heap ?s1 ! r) \<noteq> None) \<longrightarrow> played_clip ` set new = due rs ?st1 t ?s1"
      "\<forall>p\<in>set new. \<exists>r\<in>set rs. played_clip p = clip_id (heap ?s1 ! r) \<and> in_window (heap ?s1 ! r) t \<and>
              played_offset p = fsub t (startTime (heap ?s1 ! r)) \<and> played_gain p = getClipGain ?s1 (played_clip p)"
      by blast
    have d1: "due rs ?st1 t ?s1 = due rs ?st1 t s" by (simp add: due_def playClip_frame)
    have d2: "due (r # rs) st t s = insert (clip_id ?c) (due rs ?st1 t s)"
      using True by (auto simp add: due_def)
    have d3: "clip_id ?c \<notin> due rs ?st1 t s" by (auto simp add: due_def)
    have g: "getClipGain ?s1 = getClipGain s" by (rule ext) (simp add: getClipGain_def playClip_frame)
    have 1: "playbacks s' = playbacks s @ (?one @ new)"
      using new(1) by (simp only: playClip_playbacks append_assoc)
    have 2: "distinct (map played_clip (?one @ new))"
      using new(2,3) d1 d3 by auto
    have 3: "played_clip ` set (?one @ new) \<subseteq> due (r # rs) st t s"
      using new(3) d1 d2 by auto
    have 4: "audioContext s \<and> (\<forall>r\<in>set (r # rs). audioBuffer (heap s ! r) \<noteq> None) \<longrightarrow>
          played_clip ` set (?one @ new) = due (r # rs) st t s"
      using new(4) d1 d2 by (auto simp add: playClip_frame)
    have 5: "\<forall>p\<in>set (?one @ new). \<exists>r'\<in>set (r # rs). played_clip p = clip_id (heap s ! r') \<and> in_window (heap s ! r') t \<and>
              played_offset p = fsub t (startTime (heap s ! r')) \<and> played_gain p = getClipGain s (played_clip p)"
      using new(5) True by (auto simp add: playClip_frame g)
    from 1 2 3 4 5 show ?thesis by blast
  next
    case False
    then have run: "checkTime_each rs t st s = (st', s')"
      using Cons.prems by (auto simp add: Let_def in_window_def)
    have d: "due (r # rs) st t s = due rs st t s"
      using False by (auto simp add: due_def)
    from Cons.IH [OF run] show ?thesis unfolding d by fastforce
  qed
qed





lemma checkTime_spec:
  assumes "checkTime sch t s = (sch', s')"
  shows "captured sch' = captured sch"
    and "started sch' = started sch \<union> due (captured sch) (started sch) t s"
    and "played_clip ` set (new_playbacks s s') \<subseteq> due (captured sch) (started sch) t s"
    and "audioContext s \<Longrightarrow> \<forall>r\<in>set (captured sch). audioBuffer (heap s ! r) \<noteq> None \<Longrightarrow>
           played_clip ` set (new_playbacks s s') = due (captured sch) (started sch) t s"
    and "\<forall>p\<in>set (new_playbacks s s'). \<exists>r\<in>set (captured sch).
           played_clip p = clip_id (heap s ! r) \<and> in_window (heap s ! r) t \<and>
           played_offset p = fsub t (startTime (heap s ! r)) \<and> played_gain p = getClipGain s (played_clip p)"
    and "distinct (map played_clip (new_playbacks s s'))"
proof -
  obtain st' where r: "checkTime_each (captured sch) t (started sch) s = (st', s')"
    and sch': "sch' = sch\<lparr>started := st'\<rparr>"
    using assms by (auto simp add: checkTime_def split: prod.splits)
  from checkTime_each_playbacks [OF r] obtain new where new:
    "playbacks s' = playbacks s @ new" "distinct (map played_clip new)"
    "played_clip ` set new \<subseteq> due (captured sch) (started sch) t s"
    "audioContext s \<and> (\<forall>r\<in>set (captured sch). audioBuffer (heap s ! r) \<noteq> None) \<longrightarrow>
       played_clip ` set new = due (captured sch) (started sch) t s"
    "\<forall>p\<in>set new. \<exists>r\<in>set (captured sch). played_clip p = clip_id (heap s ! r) \<and> in_window (heap s ! r) t \<and>
              played_offset p = fsub t (startTime (heap s ! r)) \<and> played_gain p = getClipGain s (played_clip p)"
    by blast
  have np: "new_playbacks s s' = new" using new(1) by (simp add: new_playbacks_def)
  show "captured sch' = captured sch" using sch' by simp
  show "started sch' = started sch \<union> due (captured sch) (started sch) t s"
    using sch' checkTime_each_started [OF r] by simp
  show "played_clip ` set (new_playbacks s s') \<subseteq> due (captured sch) (started sch) t s"
    using new(3) np by simp
  show "audioContext s \<Longrightarrow> \<forall>r\<in>set (captured sch). audioBuffer (heap s ! r) \<noteq> None \<Longrightarrow>
           played_clip ` set (new_playbacks s s') = due (captured sch) (started sch) t s"
    using new(4) np by simp
  show "\<forall>p\<in>set (new_playbacks s s'). \<exists>r\<in>set (captured sch).
           played_clip p = clip_id (heap s ! r) \<and> in_window (heap s ! r) t \<and>
           played_offset p = fsub t (startTime (heap s ! r)) \<and> played_gain p = getClipGain s (played_clip p)"
    using new(5) np by simp
  show "distinct (map played_clip (new_playbacks s s'))" using new(2) np by simp
qed

lemma stopAllClips_frame:
  "heap (stopAllClips s) = heap s" "clips (stopAllClips s) = clips s"
  "audioContext (stopAllClips s) = audioContext s" "clipGains (stopAllClips s) = clipGains s"
  "playbacks (stopAllClips s) = playbacks s" "nextClipId (stopAllClips s) = nextClipId s"
  by (simp_all add: stopAllClips_def)

lemma playClipsAtTime_each_frame:
  "heap (playClipsAtTime_each rs t s) = heap s \<and> clips (playClipsAtTime_each rs t s) = clips s \<and>
   nextClipId (playClipsAtTime_each rs t s) = nextClipId s \<and>
   clipGains (playClipsAtTime_each rs t s) = clipGains s \<and>
   audioContext (playClipsAtTime_each rs t s) = audioContext s \<and>
   clipScheduler (playClipsAtTime_each rs t s) = clipScheduler s"
  by (induction rs arbitrary: s) (simp_all add: Let_def playClip_frame)

lemma playClipsAtTime_frame:
  "heap (playClipsAtTime rs t s) = heap s" "clips (playClipsAtTime rs t s) = clips s"
  "nextClipId (playClipsAtTime rs t s) = nextClipId s"
  "clipGains (playClipsAtTime rs t s) = clipGains s"
  "audioContext (playClipsAtTime rs t s) = audioContext s"
  "clipScheduler (playClipsAtTime rs t s) = clipScheduler s"
  by (simp_all add: playClipsAtTime_def playClipsAtTime_each_frame stopAllClips_frame)
   (simp add: stopAllClips_def)

lemma playClipsAtTime_each_gains:
  "\<exists>new. playbacks (playClipsAtTime_each rs t s) = playbacks s @ new \<and>
         (\<forall>q\<in>set new. played_gain q = getClipGain s (played_clip q))"
proof (induction rs arbitrary: s)
  case Nil show ?case by simp
next
  case (Cons r rs)
  let ?c = "heap s ! r"
  show ?case
  proof (cases "startTime ?c \<le> t \<and> t < fadd (startTime ?c) (duration ?c)")
    case True
    let ?s1 = "playClip r (fsub t (startTime ?c)) s"
    have g: "getClipGain ?s1 = getClipGain s" by (rule ext) (simp add: getClipGain_def playClip_frame)
    from Cons.IH [of ?s1] obtain new where
      "playbacks (playClipsAtTime_each rs t ?s1) = playbacks ?s1 @ new"
      "\<forall>q\<in>set new. played_gain q = getClipGain s (played_clip q)"
      unfolding g by blast
    then show ?thesis using True by (auto simp add: Let_def playClip_playbacks)
  next
    case False
    then show ?thesis using Cons.IH [of s] by (auto simp add: Let_def)
  qed
qed

lemma playClipsAtTime_gains:
  "\<exists>new. playbacks (playClipsAtTime rs t s) = playbacks s @ new \<and>
         (\<forall>q\<in>set new. played_gain q = getClipGain s (played_clip q))"
proof -
  have g: "getClipGain (stopAllClips s) = getClipGain s"
    by (rule ext) (simp add: getClipGain_def stopAllClips_frame)
  show ?thesis
    using playClipsAtTime_each_gains [of rs t "stopAllClips s"]
    by (simp add: playClipsAtTime_def g stopAllClips_frame)
qed


lemma example_state_eq:
  "example_state = initial\<lparr>heap := [\<lparr>clip_id = 1, startTime = 2, duration = 3, audioBuffer = Some three_seconds\<rparr>],
      clips := [0], nextClipId := 2, recordStartTime := 2, chunks := [1], mediaStream := True, mediaRecorder := Some Inactive,
      audioContext := True, masterGain := Some 0.8\<rparr>"
  by (simp add: example_state_def initial_def init_def startRecording_def ondataavailable_def
      stopRecording_def onstop_def buffer_duration_def frames_def three_seconds_def Let_def
      fdiv_def fl_3)

lemmas eval_defs = initial_def init_def startRecording_def ondataavailable_def
      stopRecording_def onstop_def buffer_duration_def frames_def Let_def
      fadd_def fsub_def fmul_def fdiv_def fl_values
      restartClipPlayback_def stopAllClips_def hasRecordings_def getAllClips_def createClipScheduler_def
      checkTime_def playClip_def onTimeUpdate_def deleteClip_def moveClip_def setClipVolume_def getClipGain_def
      onended_def recordingComplete_def


section \<open>Properties of the clip store\<close>

lemma checkTime_frame:
  "checkTime sch t s = (sch', s') \<Longrightarrow>
     heap s' = heap s \<and> clipGains s' = clipGains s \<and> audioContext s' = audioContext s \<and>
     clips s' = clips s \<and> nextClipId s' = nextClipId s \<and> clipScheduler s' = clipScheduler s"
  using checkTime_each_frame by (auto simp add: checkTime_def split: prod.splits)

lemma restartClipPlayback_frame:
  "heap (restartClipPlayback p t s) = heap s" "clips (restartClipPlayback p t s) = clips s"
  "nextClipId (restartClipPlayback p t s) = nextClipId s"
  "clipGains (restartClipPlayback p t s) = clipGains s"
  "audioContext (restartClipPlayback p t s) = audioContext s"
proof -
  let ?s1 = "stopAllClips s"
  obtain sch' s2 where c: "checkTime (createClipScheduler (getAllClips ?s1)) t ?s1 = (sch', s2)"
    by (cases "checkTime (createClipScheduler (getAllClips ?s1)) t ?s1")
  note fr = checkTime_frame [OF c]
  show "heap (restartClipPlayback p t s) = heap s" "clips (restartClipPlayback p t s) = clips s"
    "nextClipId (restartClipPlayback p t s) = nextClipId s"
    "clipGains (restartClipPlayback p t s) = clipGains s"
    "audioContext (restartClipPlayback p t s) = audioContext s"
    using fr c by (simp_all add: restartClipPlayback_def Let_def stopAllClips_frame)
qed

lemma onTimeUpdate_frame:
  "heap (onTimeUpdate t s) = heap s" "clips (onTimeUpdate t s) = clips s"
  "nextClipId (onTimeUpdate t s) = nextClipId s" "clipGains (onTimeUpdate t s) = clipGains s"
  "audioContext (onTimeUpdate t s) = audioContext s"
proof -
  show "heap (onTimeUpdate t s) = heap s" "clips (onTimeUpdate t s) = clips s"
    "nextClipId (onTimeUpdate t s) = nextClipId s" "clipGains (onTimeUpdate t s) = clipGains s"
    "audioContext (onTimeUpdate t s) = audioContext s"
    using checkTime_frame by (auto simp add: onTimeUpdate_def split: option.splits prod.splits)
qed

lemma recordingComplete_frame:
  "heap (recordingComplete r p t s) = heap s" "clips (recordingComplete r p t s) = clips s"
  "nextClipId (recordingComplete r p t s) = nextClipId s"
  by (simp_all add: recordingComplete_def restartClipPlayback_frame setClipVolume_def)

lemma stopRecording_frame:
  "heap (stopRecording s) = heap s" "clips (stopRecording s) = clips s"
  "nextClipId (stopRecording s) = nextClipId s" "clipGains (stopRecording s) = clipGains s"
  "chunks (stopRecording s) = chunks s" "isRecording (stopRecording s) = False"
  "playbacks (stopRecording s) = playbacks s" "console (stopRecording s) = console s"
  by (simp_all add: stopRecording_def)

lemma startRecording_frame:
  "heap (snd (startRecording t g s)) = heap s" "clips (snd (startRecording t g s)) = clips s"
  "nextClipId (snd (startRecording t g s)) = nextClipId s"
  "clipGains (snd (startRecording t g s)) = clipGains s"
  by (simp_all add: startRecording_def Let_def stopRecording_frame)

lemma nth_update_same:
  assumes "f y = f (xs ! i)"
  shows "f (xs[i := y] ! r) = f (xs ! r)"
proof (cases "i < length xs \<and> r = i")
  case True
  then have "xs[i := y] ! r = y" by simp
  then show ?thesis using assms True by simp
next
  case False
  then have "xs[i := y] ! r = xs ! r" by (cases "i < length xs") (simp_all add: list_update_beyond)
  then show ?thesis by simp
qed

lemma map_update_same: "f y = f (xs ! i) \<Longrightarrow> map f (xs[i := y]) = map f xs"
  by (rule nth_equalityI) (simp_all add: nth_update_same)

lemma moveClip_created: "created (moveClip i t s) = created s"
proof (cases "find (\<lambda>r. clip_id (heap s ! r) = i) (clips s)")
  case None then show ?thesis by (simp add: moveClip_def)
next
  case (Some r)
  have "map clip_id ((heap s)[r := (heap s ! r)\<lparr>startTime := max 0 t\<rparr>]) = map clip_id (heap s)"
    by (rule map_update_same) simp
  then show ?thesis using Some by (simp add: moveClip_def created_def)
qed

lemma moveClip_frame:
  "clips (moveClip i t s) = clips s" "nextClipId (moveClip i t s) = nextClipId s"
  "length (heap (moveClip i t s)) = length (heap s)" "clipGains (moveClip i t s) = clipGains s"
  "clip_id (heap (moveClip i t s) ! r) = clip_id (heap s ! r)"
  "duration (heap (moveClip i t s) ! r) = duration (heap s ! r)"
  "audioBuffer (heap (moveClip i t s) ! r) = audioBuffer (heap s ! r)"
  by (auto simp add: moveClip_def nth_update_same split: option.splits)

lemma onstop_cases:
  "onstop d p t s = s \<or>
   (\<exists>err. onstop d p t s = s\<lparr>console := console s @ [FailedToDecode err], isRecording := False\<rparr>) \<or>
   (\<exists>b. d = Inr b \<and> chunks s \<noteq> [] \<and>
        heap (onstop d p t s) = heap s @ [\<lparr>clip_id = nextClipId s, startTime = recordStartTime s,
                          duration = buffer_duration b, audioBuffer = Some b\<rparr>] \<and>
        clips (onstop d p t s) = clips s @ [length (heap s)] \<and>
        nextClipId (onstop d p t s) = nextClipId s + 1)"
  by (cases d) (auto simp add: onstop_def Let_def recordingComplete_frame)

lemma ids_inv_step: "ids_inv s \<Longrightarrow> ids_inv (step e s) \<and> nextClipId s \<le> nextClipId (step e s)"
proof (cases e)
  case (OnStop d p t)
  assume inv: "ids_inv s"
  from onstop_cases [of d p t s] show ?thesis
  proof (elim disjE exE conjE)
    assume "onstop d p t s = s" then show ?thesis using inv OnStop by simp
  next
    fix err assume "onstop d p t s = s\<lparr>console := console s @ [FailedToDecode err], isRecording := False\<rparr>"
    then show ?thesis using inv OnStop by (simp add: ids_inv_def created_def)
  next
    fix b
    assume a: "heap (onstop d p t s) = heap s @ [\<lparr>clip_id = nextClipId s, startTime = recordStartTime s,
                          duration = buffer_duration b, audioBuffer = Some b\<rparr>]"
        "clips (onstop d p t s) = clips s @ [length (heap s)]"
        "nextClipId (onstop d p t s) = nextClipId s + 1"
    have "created (onstop d p t s) = [1..<nextClipId s] @ [nextClipId s]"
      using inv a by (simp add: created_def ids_inv_def)
    also have "\<dots> = [1..<nextClipId s + 1]" using inv by (simp add: ids_inv_def)
    finally have "created (onstop d p t s) = [1..<nextClipId (onstop d p t s)]" using a by simp
    moreover have "distinct (clips (onstop d p t s))" using inv a by (auto simp add: ids_inv_def)
    moreover have "\<forall>r\<in>set (clips (onstop d p t s)). r < length (heap (onstop d p t s))"
      using inv a by (auto simp add: ids_inv_def)
    ultimately show ?thesis using OnStop a inv by (simp add: ids_inv_def)
  qed
next
  case (MoveClip i t)
  assume "ids_inv s"
  then show ?thesis using MoveClip by (simp add: ids_inv_def moveClip_created moveClip_frame)
next
  case (StartRecording t g)
  assume "ids_inv s"
  then show ?thesis using StartRecording by (simp add: ids_inv_def created_def startRecording_frame)
next
  case StopRecording
  assume "ids_inv s"
  then show ?thesis using StopRecording by (simp add: ids_inv_def created_def stopRecording_frame)
next
  case (Restart p t)
  assume "ids_inv s"
  then show ?thesis using Restart by (simp add: ids_inv_def created_def restartClipPlayback_frame)
next
  case (Tick t)
  assume "ids_inv s"
  then show ?thesis using Tick by (simp add: ids_inv_def created_def onTimeUpdate_frame)
qed (simp_all add: ids_inv_def created_def init_def ondataavailable_def deleteClip_def
      setClipVolume_def setMasterVolume_def stopAllClips_def onended_def playClipsAtTime_frame)

lemma ids_inv_run: "ids_inv s \<Longrightarrow> ids_inv (run evs s) \<and> nextClipId s \<le> nextClipId (run evs s)"
proof (induction evs arbitrary: s)
  case Nil then show ?case by simp
next
  case (Cons e evs)
  from ids_inv_step [OF Cons.prems, of e]
  have 1: "ids_inv (step e s)" and 2: "nextClipId s \<le> nextClipId (step e s)" by simp_all
  from Cons.IH [OF 1] 2 show ?case by simp
qed

lemma run_append: "run (xs @ ys) s = run ys (run xs s)"
  by (induction xs arbitrary: s) simp_all

lemma ids_inv_initial: "ids_inv initial"
  by (simp add: ids_inv_def created_def initial_def)

lemma ids_inv_distinct:
  assumes "ids_inv s"
  shows "distinct (clip_ids s)" and "set (clip_ids s) \<subseteq> set (created s)"
proof -
  have d: "distinct (created s)" using assms by (simp add: ids_inv_def)
  have b: "\<forall>r\<in>set (clips s). r < length (heap s)" using assms by (simp add: ids_inv_def)
  have eq: "clip_ids s = map (\<lambda>r. created s ! r) (clips s)"
    using b by (simp add: clip_ids_def created_def getAllClips_def)
  have "inj_on (\<lambda>r. created s ! r) (set (clips s))"
  proof (rule inj_onI)
    fix x y assume "x \<in> set (clips s)" "y \<in> set (clips s)" "created s ! x = created s ! y"
    moreover have "length (created s) = length (heap s)" by (simp add: created_def)
    ultimately show "x = y" using d b by (simp add: nth_eq_iff_index_eq)
  qed
  then show "distinct (clip_ids s)" using assms by (simp add: eq distinct_map ids_inv_def)
  show "set (clip_ids s) \<subseteq> set (created s)"
    using b by (auto simp add: eq created_def)
qed

text \<open>
  Claim C6.  After any sequence of calls and events from the initial state (recordings that
  complete or fail, deletions, moves, gain changes, playback), the ids listed by
  \<^verbatim>\<open>getAllClips\<close> are pairwise different and each of them is the id of a clip that a
  completed recording created.  The ids of all clips ever created are \<open>1, 2, \<dots>\<close> up to
  \<open>nextClipId - 1\<close> in creation order, and whatever happens later only appends ids from
  the current value of \<open>nextClipId\<close> upwards: an id is never handed out twice, also after
  its clip has been deleted.
\<close>

theorem clip_ids_never_reused:
  "distinct (clip_ids (run evs initial)) \<and>
   set (clip_ids (run evs initial)) \<subseteq> set (created (run evs initial)) \<and>
   created (run evs initial) = [1..<nextClipId (run evs initial)] \<and>
   created (run (evs @ later) initial)
     = created (run evs initial) @ [nextClipId (run evs initial)..<nextClipId (run (evs @ later) initial)]"
proof -
  let ?s = "run evs initial"
  have inv: "ids_inv ?s" using ids_inv_run [OF ids_inv_initial] by simp
  have inv': "ids_inv (run later ?s)" and le: "nextClipId ?s \<le> nextClipId (run later ?s)"
    using ids_inv_run [OF inv, of later] by simp_all
  have "[1..<nextClipId (run later ?s)] = [1..<nextClipId ?s] @ [nextClipId ?s..<nextClipId (run later ?s)]"
    using le inv upt_add_eq_append [of 1 "nextClipId ?s" "nextClipId (run later ?s) - nextClipId ?s"]
    by (simp add: ids_inv_def)
  then have "created (run (evs @ later) initial) = created ?s @ [nextClipId ?s..<nextClipId (run (evs @ later) initial)]"
    using inv inv' by (simp add: run_append ids_inv_def)
  then show ?thesis using ids_inv_distinct [OF inv] inv by (simp add: ids_inv_def)
qed

lemma ex_ids:
  "clip_ids (run (Init # record_clip 0 @ record_clip 1 @ [DeleteClip 1, MoveClip 2 7, SetClipVolume 2 0.5]) initial) = [2]"
  "created (run (Init # record_clip 0 @ record_clip 1 @ [DeleteClip 1, MoveClip 2 7, SetClipVolume 2 0.5]) initial) = [1, 2]"
  "nextClipId (run (Init # record_clip 0 @ record_clip 1 @ [DeleteClip 1, MoveClip 2 7, SetClipVolume 2 0.5]) initial) = 3"
  "clip_ids (run ((Init # record_clip 0 @ record_clip 1 @ [DeleteClip 1, MoveClip 2 7, SetClipVolume 2 0.5]) @ record_clip 3) initial) = [2, 3]"
  "nextClipId (run ((Init # record_clip 0 @ record_clip 1 @ [DeleteClip 1, MoveClip 2 7, SetClipVolume 2 0.5]) @ record_clip 3) initial) = 4"
  by (simp_all add: record_clip_def clip_ids_def created_def eval_defs three_seconds_def)

theorem clip_ids_never_reused_witness:
  "clip_ids (run (Init # record_clip 0 @ record_clip 1 @ [DeleteClip 1, MoveClip 2 7, SetClipVolume 2 0.5]) initial) = [2] \<and>
   created (run (Init # record_clip 0 @ record_clip 1 @ [DeleteClip 1, MoveClip 2 7, SetClipVolume 2 0.5]) initial) = [1, 2] \<and>
   clip_ids (run ((Init # record_clip 0 @ record_clip 1 @ [DeleteClip 1, MoveClip 2 7, SetClipVolume 2 0.5])
                   @ record_clip 3) initial) = [2, 3] \<and>
   created (run ((Init # record_clip 0 @ record_clip 1 @ [DeleteClip 1, MoveClip 2 7, SetClipVolume 2 0.5])
                   @ record_clip 3) initial) = [1, 2, 3]"
  using clip_ids_never_reused [of "Init # record_clip 0 @ record_clip 1 @ [DeleteClip 1, MoveClip 2 7, SetClipVolume 2 0.5]" "record_clip 3"]
    ex_ids
  by (simp add: upt_rec)

section \<open>Properties of the stored gains\<close>

lemma checkTime_gains:
  assumes "checkTime sch t s = (sch', s')"
  shows "\<exists>new. playbacks s' = playbacks s @ new \<and>
           (\<forall>q\<in>set new. played_gain q = getClipGain s (played_clip q))"
proof -
  obtain st' where r: "checkTime_each (captured sch) t (started sch) s = (st', s')"
    using assms by (auto simp add: checkTime_def split: prod.splits)
  from checkTime_each_playbacks [OF r] show ?thesis by blast
qed

lemma restart_gains:
  "\<exists>new. playbacks (restartClipPlayback p t s) = playbacks s @ new \<and>
         (\<forall>q\<in>set new. played_gain q = getClipGain s (played_clip q))"
proof -
  let ?s1 = "stopAllClips s"
  obtain sch' s2 where c: "checkTime (createClipScheduler (getAllClips ?s1)) t ?s1 = (sch', s2)"
    by (cases "checkTime (createClipScheduler (getAllClips ?s1)) t ?s1")
  have g: "getClipGain ?s1 = getClipGain s" by (rule ext) (simp add: getClipGain_def stopAllClips_frame)
  from checkTime_gains [OF c] obtain new where
    "playbacks s2 = playbacks s @ new" "\<forall>q\<in>set new. played_gain q = getClipGain s (played_clip q)"
    by (auto simp add: stopAllClips_frame g)
  then show ?thesis using c by (auto simp add: restartClipPlayback_def Let_def stopAllClips_frame)
qed

lemma tick_gains:
  "\<exists>new. playbacks (onTimeUpdate t s) = playbacks s @ new \<and>
         (\<forall>q\<in>set new. played_gain q = getClipGain s (played_clip q))"
proof (cases "clipScheduler s")
  case None then show ?thesis by (simp add: onTimeUpdate_def)
next
  case (Some sch)
  obtain sch' s' where c: "checkTime sch t s = (sch', s')" by (cases "checkTime sch t s")
  from checkTime_gains [OF c] show ?thesis using Some c by (simp add: onTimeUpdate_def)
qed

lemma default_inv_append:
  assumes "default_inv c s" "playbacks s' = playbacks s @ new" "clipGains s' = clipGains s"
    "\<forall>q\<in>set new. played_gain q = getClipGain s (played_clip q)"
  shows "default_inv c s'"
  using assms by (auto simp add: default_inv_def getClipGain_def)

lemma default_inv_restart: "default_inv c s \<Longrightarrow> default_inv c (restartClipPlayback p t s)"
  using restart_gains [of p t s] by (auto intro: default_inv_append simp add: restartClipPlayback_frame)

lemma default_inv_tick: "default_inv c s \<Longrightarrow> default_inv c (onTimeUpdate t s)"
  using tick_gains [of t s] by (auto intro: default_inv_append simp add: onTimeUpdate_frame)

lemma default_inv_playClipsAtTime: "default_inv c s \<Longrightarrow> default_inv c (playClipsAtTime rs t s)"
  using playClipsAtTime_gains [of rs t s]
  by (auto intro: default_inv_append simp add: playClipsAtTime_frame)

lemma default_inv_setClipVolume:
  "default_inv c s \<Longrightarrow> c' \<noteq> c \<or> vol = 0.8 \<Longrightarrow> default_inv c (setClipVolume c' vol s)"
  by (auto simp add: default_inv_def setClipVolume_def)

lemma default_inv_onstop: "default_inv c s \<Longrightarrow> default_inv c (onstop d p t s)"
proof (cases d)
  case (Inl err)
  assume "default_inv c s"
  then show ?thesis using Inl by (simp add: onstop_def default_inv_def)
next
  case (Inr b)
  assume inv: "default_inv c s"
  let ?s1 = "s\<lparr>nextClipId := nextClipId s + 1,
              heap := heap s @ [\<lparr>clip_id = nextClipId s, startTime = recordStartTime s,
                          duration = buffer_duration b, audioBuffer = Some b\<rparr>],
              clips := clips s @ [length (heap s)]\<rparr>"
  have 1: "default_inv c ?s1" using inv by (simp add: default_inv_def)
  have 2: "default_inv c (recordingComplete (length (heap s)) p t ?s1)"
    unfolding recordingComplete_def
    by (intro default_inv_restart default_inv_setClipVolume 1) simp
  have 3: "default_inv c (x\<lparr>isRecording := False\<rparr>) = default_inv c x" for x
    by (simp add: default_inv_def)
  show ?thesis using inv Inr 1 2 by (simp add: onstop_def Let_def 3)
qed

lemma default_inv_step:
  assumes "default_inv c s" "\<forall>g. e \<noteq> SetClipVolume c g"
  shows "default_inv c (step e s)"
proof (cases e)
  case (OnStop d p t) then show ?thesis using assms by (simp add: default_inv_onstop)
next
  case (SetClipVolume c' g) then show ?thesis using assms by (simp add: default_inv_setClipVolume)
next
  case (Restart p t) then show ?thesis using assms by (simp add: default_inv_restart)
next
  case (Tick t) then show ?thesis using assms by (simp add: default_inv_tick)
next
  case (PlayClipsAtTime t) then show ?thesis using assms by (simp add: default_inv_playClipsAtTime)
next
  case (StartRecording t g)
  then show ?thesis using assms by (simp add: default_inv_def startRecording_def stopRecording_def Let_def)
next
  case StopRecording
  then show ?thesis using assms by (simp add: default_inv_def stopRecording_def)
next
  case (MoveClip i t)
  then show ?thesis using assms by (simp add: default_inv_def moveClip_def split: option.splits)
qed (use assms in \<open>simp_all add: default_inv_def init_def ondataavailable_def deleteClip_def
      setMasterVolume_def stopAllClips_def onended_def\<close>)

lemma default_inv_run:
  "default_inv c s \<Longrightarrow> \<forall>g. SetClipVolume c g \<notin> set evs \<Longrightarrow> default_inv c (run evs s)"
proof (induction evs arbitrary: s)
  case Nil then show ?case by simp
next
  case (Cons e evs)
  have "default_inv c (step e s)" using Cons.prems by (intro default_inv_step) auto
  then show ?case using Cons by simp
qed

lemma onstop_gain_frame: "c < nextClipId s \<Longrightarrow> clipGains (onstop d p t s) c = clipGains s c"
  by (cases d) (simp_all add: onstop_def Let_def recordingComplete_def restartClipPlayback_frame setClipVolume_def)

lemma step_nextClipId: "nextClipId s \<le> nextClipId (step e s)"
proof (cases e)
  case (OnStop d p t)
  then show ?thesis using onstop_cases [of d p t s] by auto
qed (simp_all add: init_def startRecording_frame stopRecording_frame ondataavailable_def deleteClip_def
      moveClip_frame setClipVolume_def setMasterVolume_def stopAllClips_def onended_def
      restartClipPlayback_frame onTimeUpdate_frame playClipsAtTime_frame)

lemma step_gain_frame:
  assumes "c < nextClipId s" "\<forall>g. e \<noteq> SetClipVolume c g"
  shows "clipGains (step e s) c = clipGains s c"
proof (cases e)
  case (OnStop d p t) then show ?thesis using assms by (simp add: onstop_gain_frame)
next
  case (SetClipVolume c' g) then show ?thesis using assms by (simp add: setClipVolume_def)
qed (simp_all add: init_def startRecording_frame stopRecording_frame ondataavailable_def deleteClip_def
      moveClip_frame setMasterVolume_def stopAllClips_def onended_def
      restartClipPlayback_frame onTimeUpdate_frame playClipsAtTime_frame)

lemma run_gain_frame:
  "c < nextClipId s \<Longrightarrow> \<forall>g. SetClipVolume c g \<notin> set evs \<Longrightarrow> clipGains (run evs s) c = clipGains s c"
proof (induction evs arbitrary: s)
  case Nil then show ?case by simp
next
  case (Cons e evs)
  have 1: "clipGains (step e s) c = clipGains s c" using Cons.prems by (intro step_gain_frame) auto
  have 2: "c < nextClipId (step e s)" using Cons.prems(1) step_nextClipId [of s e] by simp
  show ?case using Cons.IH [OF 2] Cons.prems(2) 1 by simp
qed

text \<open>
  Claim C10.  (1) After any sequence of calls and events from the initial state in which
  \<^verbatim>\<open>setClipVolume\<close> was never called for the id \<open>c\<close> (whether or not a clip with that id
  exists, existed or was deleted), \<^verbatim>\<open>getClipGain\<close> returns 0.8 for \<open>c\<close> and every playback
  of \<open>c\<close> was started at gain 0.8.  (The application's recording-complete handler itself
  stores 0.8 for a new clip, which leaves the statement true.)  (2) A gain stored for the id
  of an existing or former clip is still returned after any later sequence without another
  \<^verbatim>\<open>setClipVolume\<close> for that id, deletions of the clip included; (3) in particular right
  after deleting the clip.
\<close>

theorem default_gain:
  "(\<forall>evs c. (\<forall>g. SetClipVolume c g \<notin> set evs) \<longrightarrow>
       getClipGain (run evs initial) c = 0.8 \<and>
       (\<forall>p\<in>set (playbacks (run evs initial)). played_clip p = c \<longrightarrow> played_gain p = 0.8)) \<and>
   (\<forall>evs s c g. (\<forall>g'. SetClipVolume c g' \<notin> set evs) \<and> c < nextClipId s \<longrightarrow>
       getClipGain (run evs (setClipVolume c g s)) c = g) \<and>
   (\<forall>s c g. getClipGain (deleteClip c (setClipVolume c g s)) c = g)"
proof (intro conjI allI impI ballI)
  fix evs c assume a: "\<forall>g. SetClipVolume c g \<notin> set evs"
  have "default_inv c initial" by (simp add: default_inv_def initial_def)
  then have inv: "default_inv c (run evs initial)" using a by (rule default_inv_run)
  then show "getClipGain (run evs initial) c = 0.8" by (auto simp add: default_inv_def getClipGain_def)
  fix p assume "p \<in> set (playbacks (run evs initial))" "played_clip p = c"
  then show "played_gain p = 0.8" using inv by (simp add: default_inv_def)
next
  fix evs and s :: state and c g
  assume a: "(\<forall>g'. SetClipVolume c g' \<notin> set evs) \<and> c < nextClipId s"
  then have "clipGains (run evs (setClipVolume c g s)) c = clipGains (setClipVolume c g s) c"
    by (intro run_gain_frame) (simp_all add: setClipVolume_def)
  then show "getClipGain (run evs (setClipVolume c g s)) c = g"
    by (simp add: getClipGain_def setClipVolume_def)
next
  fix s :: state and c g
  show "getClipGain (deleteClip c (setClipVolume c g s)) c = g"
    by (simp add: getClipGain_def deleteClip_def setClipVolume_def)
qed

lemma ex_gain:
  "getClipGain (run (Init # record_clip 0 @ [DeleteClip 1, Restart True 1]) initial) 1 = 0.8"
  "getClipGain (run (Init # SetOnRecordingComplete # record_clip 0 @ [Tick 1, DeleteClip 1]) initial) 1 = 0.8"
  "playbacks (run (Init # SetOnRecordingComplete # record_clip 0 @ [Restart True 1]) initial)
     = [\<lparr>node = 0, played_clip = 1, played_offset = 1, played_gain = 0.8\<rparr>]"
  "nextClipId (run (Init # record_clip 0) initial) = 2"
  by (simp_all add: record_clip_def eval_defs three_seconds_def)

theorem default_gain_witness:
  "getClipGain (run (Init # record_clip 0 @ [Restart True 1, DeleteClip 1]) initial) 1 = 0.8 \<and>
   playbacks (run (Init # record_clip 0 @ [Restart True 1, DeleteClip 1]) initial)
     = [\<lparr>node = 0, played_clip = 1, played_offset = 1, played_gain = 0.8\<rparr>] \<and>
   getClipGain (run (Init # record_clip 0 @ [Restart True 1, DeleteClip 1]) initial) 7 = 0.8 \<and>
   1 < nextClipId (run (Init # record_clip 0) initial) \<and>
   getClipGain (run [DeleteClip 1, Tick 2] (setClipVolume 1 0.3 (run (Init # record_clip 0) initial))) 1 = 0.3"
proof -
  let ?evs = "Init # record_clip 0 @ [Restart True 1, DeleteClip 1]"
  have n: "\<forall>g. SetClipVolume 1 g \<notin> set ?evs" "\<forall>g. SetClipVolume 7 g \<notin> set ?evs"
    "\<forall>g. SetClipVolume 1 g \<notin> set [DeleteClip 1, Tick 2]"
    by (simp_all add: record_clip_def)
  have p: "playbacks (run ?evs initial) = [\<lparr>node = 0, played_clip = 1, played_offset = 1, played_gain = 0.8\<rparr>]"
    by (simp add: record_clip_def eval_defs three_seconds_def)
  have k: "1 < nextClipId (run (Init # record_clip 0) initial)"
    by (simp add: record_clip_def eval_defs three_seconds_def)
  have a: "getClipGain (run ?evs initial) 1 = 0.8"
    using default_gain [THEN conjunct1, THEN spec, THEN spec, THEN mp, OF n(1)] by blast
  have b: "getClipGain (run ?evs initial) 7 = 0.8"
    using default_gain [THEN conjunct1, THEN spec, THEN spec, THEN mp, OF n(2)] by blast
  have c: "getClipGain (run [DeleteClip 1, Tick 2] (setClipVolume 1 0.3 (run (Init # record_clip 0) initial))) 1 = 0.3"
    using default_gain [THEN conjunct2, THEN conjunct1, THEN spec, THEN spec, THEN spec, THEN spec, THEN mp,
        OF conjI [OF n(3) k]] .
  show ?thesis using a b c p k by simp
qed

section \<open>What the scheduler starts\<close>

lemma restart_scheduler:
  "clipScheduler (restartClipPlayback playing t s) = None \<longleftrightarrow> \<not> (playing \<and> getAllClips s \<noteq> [])"
  "clipScheduler (restartClipPlayback playing t s) = Some sch \<Longrightarrow> captured sch = getAllClips s"
proof -
  let ?s1 = "stopAllClips s"
  obtain sch' s2 where c: "checkTime (createClipScheduler (getAllClips ?s1)) t ?s1 = (sch', s2)"
    by (cases "checkTime (createClipScheduler (getAllClips ?s1)) t ?s1")
  have cap: "captured sch' = getAllClips s"
    using checkTime_spec(1) [OF c] by (simp add: createClipScheduler_def getAllClips_def stopAllClips_frame)
  show "clipScheduler (restartClipPlayback playing t s) = None \<longleftrightarrow> \<not> (playing \<and> getAllClips s \<noteq> [])"
    using c by (auto simp add: restartClipPlayback_def Let_def hasRecordings_def getAllClips_def stopAllClips_frame)
  show "clipScheduler (restartClipPlayback playing t s) = Some sch \<Longrightarrow> captured sch = getAllClips s"
    using c cap by (auto simp add: restartClipPlayback_def Let_def split: if_splits)
qed










text \<open>
  The window of a clip against the interval of the reals: its end is the sum of the reals
  up to the rounding error, and it is that sum whenever the sum is a double.
\<close>

lemma in_window_real:
  assumes "pow2 (- 1022) \<le> \<bar>startTime c + duration c\<bar>"
  shows "startTime c \<le> t \<and> t < (startTime c + duration c) - \<bar>startTime c + duration c\<bar> * pow2 (- 53)
           \<Longrightarrow> in_window c t"
    and "in_window c t
           \<Longrightarrow> startTime c \<le> t \<and> t < (startTime c + duration c) + \<bar>startTime c + duration c\<bar> * pow2 (- 53)"
    and "fl (startTime c + duration c) = startTime c + duration c
           \<Longrightarrow> in_window c t = (startTime c \<le> t \<and> t < startTime c + duration c)"
  using fl_error [OF assms] by (auto simp add: in_window_def fadd_def)



section \<open>Gain changes, snapshots and the clips a scheduler acts on\<close>

lemma setClipVolume_effect:
  "getClipGain (setClipVolume c vol s) c = vol"
  "activeClipSources (setClipVolume c vol s) = set_found_gain c vol (activeClipSources s)"
  "playbacks (setClipVolume c vol s) = playbacks s"
  "stops (setClipVolume c vol s) = stops s"
  "map source (set_found_gain c vol es) = map source es"
  "map clipId (set_found_gain c vol es) = map clipId es"
  by (simp_all add: getClipGain_def setClipVolume_def) (induction es; simp)+

text \<open>
  Claim C5, at the input \<^verbatim>\<open>setClipVolume(1, 1.5)\<close> while clip 1 is sounding: the value
  stored for the clip and the live gain of its playing source both become 1.5, although
  1.5 clamped to \<open>[0, 1]\<close> is 1.  The source keeps playing: nothing is stopped or started.
\<close>

theorem setClipVolume_out_of_range:
  "activeClipSources (run [Restart True 2.5] example_state)
     = [\<lparr>source = 0, gainNode = 0.8, clipId = 1\<rparr>] \<and>
   getClipGain (setClipVolume 1 1.5 (run [Restart True 2.5] example_state)) 1 = 1.5 \<and>
   activeClipSources (setClipVolume 1 1.5 (run [Restart True 2.5] example_state))
     = [\<lparr>source = 0, gainNode = 1.5, clipId = 1\<rparr>] \<and>
   playbacks (setClipVolume 1 1.5 (run [Restart True 2.5] example_state))
     = playbacks (run [Restart True 2.5] example_state) \<and>
   max 0 (min 1 (1.5 :: real)) = 1"
  by (simp add: example_state_eq eval_defs)

lemma step_heap:
  assumes "r < length (heap s)"
  shows "length (heap s) \<le> length (heap (step e s))"
    and "clip_id (heap (step e s) ! r) = clip_id (heap s ! r)"
    and "duration (heap (step e s) ! r) = duration (heap s ! r)"
    and "audioBuffer (heap (step e s) ! r) = audioBuffer (heap s ! r)"
    and "\<forall>t. e \<noteq> MoveClip (clip_id (heap s ! r)) t \<Longrightarrow> heap (step e s) ! r = heap s ! r"
proof -
  have "length (heap s) \<le> length (heap (step e s)) \<and>
        clip_id (heap (step e s) ! r) = clip_id (heap s ! r) \<and>
        duration (heap (step e s) ! r) = duration (heap s ! r) \<and>
        audioBuffer (heap (step e s) ! r) = audioBuffer (heap s ! r) \<and>
        ((\<forall>t. e \<noteq> MoveClip (clip_id (heap s ! r)) t) \<longrightarrow> heap (step e s) ! r = heap s ! r)"
  proof (cases e)
    case (OnStop d p t)
    then show ?thesis using onstop_cases [of d p t s] assms by (auto simp add: nth_append)
  next
    case (MoveClip i t)
    have "heap (moveClip i t s) ! r = heap s ! r" if "i \<noteq> clip_id (heap s ! r)"
    proof (cases "find (\<lambda>x. clip_id (heap s ! x) = i) (clips s)")
      case None then show ?thesis by (simp add: moveClip_def)
    next
      case (Some r')
      then have "clip_id (heap s ! r') = i" by (auto simp add: find_Some_iff)
      then have "r' \<noteq> r" using that by auto
      then show ?thesis using Some by (simp add: moveClip_def)
    qed
    then show ?thesis using MoveClip by (auto simp add: moveClip_frame)
  qed (simp_all add: init_def startRecording_frame stopRecording_frame ondataavailable_def deleteClip_def
      setClipVolume_def setMasterVolume_def stopAllClips_def onended_def
      restartClipPlayback_frame onTimeUpdate_frame playClipsAtTime_frame)
  then show "length (heap s) \<le> length (heap (step e s))"
    and "clip_id (heap (step e s) ! r) = clip_id (heap s ! r)"
    and "duration (heap (step e s) ! r) = duration (heap s ! r)"
    and "audioBuffer (heap (step e s) ! r) = audioBuffer (heap s ! r)"
    and "\<forall>t. e \<noteq> MoveClip (clip_id (heap s ! r)) t \<Longrightarrow> heap (step e s) ! r = heap s ! r"
    by simp_all
qed

lemma run_heap:
  assumes "r < length (heap s)"
  shows "clip_id (heap (run evs s) ! r) = clip_id (heap s ! r) \<and>
         duration (heap (run evs s) ! r) = duration (heap s ! r) \<and>
         audioBuffer (heap (run evs s) ! r) = audioBuffer (heap s ! r) \<and>
         ((\<forall>t. MoveClip (clip_id (heap s ! r)) t \<notin> set evs) \<longrightarrow> heap (run evs s) ! r = heap s ! r)"
  using assms
proof (induction evs arbitrary: s)
  case Nil then show ?case by simp
next
  case (Cons e evs)
  note st = step_heap [OF Cons.prems, of e]
  have "r < length (heap (step e s))" using st(1) Cons.prems by simp
  from Cons.IH [OF this] show ?case using st(2,3,4,5) by auto
qed

lemma run_heap_valid: "r < length (heap s) \<Longrightarrow> r < length (heap (run evs s))"
proof (induction evs arbitrary: s)
  case Nil then show ?case by simp
next
  case (Cons e evs)
  have "r < length (heap (step e s))" using step_heap(1) [OF Cons.prems, of e] Cons.prems by simp
  then show ?case using Cons.IH by simp
qed

lemma find_distinct:
  "distinct (map f xs) \<Longrightarrow> r \<in> set xs \<Longrightarrow> find (\<lambda>x. f x = f r) xs = Some r"
  by (induction xs) auto

lemma reachable_inv: "ids_inv (run evs initial)"
  using ids_inv_run [OF ids_inv_initial] by simp

lemma find_absent:
  assumes "ids_inv s" "r < length (heap s)" "r \<notin> set (clips s)"
  shows "find (\<lambda>x. clip_id (heap s ! x) = clip_id (heap s ! r)) (clips s) = None"
proof (rule ccontr)
  assume "find (\<lambda>x. clip_id (heap s ! x) = clip_id (heap s ! r)) (clips s) \<noteq> None"
  then obtain r' where f: "find (\<lambda>x. clip_id (heap s ! x) = clip_id (heap s ! r)) (clips s) = Some r'" by auto
  then have 1: "r' \<in> set (clips s)" "clip_id (heap s ! r') = clip_id (heap s ! r)"
    by (auto simp add: find_Some_iff)
  have 2: "r' < length (heap s)" using assms(1) 1(1) by (simp add: ids_inv_def)
  have d: "distinct (created s)" using assms(1) by (simp add: ids_inv_def)
  have l: "r' < length (created s)" "r < length (created s)" using 2 assms(2) by (simp_all add: created_def)
  have "created s ! r' = created s ! r" using 1(2) 2 assms(2) by (simp add: created_def)
  then have "r' = r" using nth_eq_iff_index_eq [OF d l] by simp
  then show False using 1(1) assms(3) by simp
qed

lemma moveClip_absent:
  assumes "ids_inv s" "r < length (heap s)" "r \<notin> set (clips s)"
  shows "moveClip (clip_id (heap s ! r)) t s = s"
  using find_absent [OF assms] by (simp add: moveClip_def)

lemma moveClip_present:
  assumes "ids_inv s" "r \<in> set (clips s)"
  shows "heap (moveClip (clip_id (heap s ! r)) t s) ! r = (heap s ! r)\<lparr>startTime := max 0 t\<rparr>"
proof -
  have "distinct (map (\<lambda>x. clip_id (heap s ! x)) (clips s))"
    using ids_inv_distinct(1) [OF assms(1)] by (simp add: clip_ids_def getAllClips_def)
  then have "find (\<lambda>x. clip_id (heap s ! x) = clip_id (heap s ! r)) (clips s) = Some r"
    using assms(2) by (intro find_distinct) simp_all
  moreover have "r < length (heap s)" using assms by (simp add: ids_inv_def)
  ultimately show ?thesis by (simp add: moveClip_def)
qed

lemma step_move_of:
  assumes "ids_inv s" "r < length (heap s)"
  shows "heap (step e s) ! r =
           (case move_of r e s of None \<Rightarrow> heap s ! r | Some x \<Rightarrow> (heap s ! r)\<lparr>startTime := x\<rparr>)"
proof (cases "\<exists>t. e = MoveClip (clip_id (heap s ! r)) t")
  case False
  then have "move_of r e s = None" by (cases e) auto
  then show ?thesis using step_heap(5) [OF assms(2), of e] False by simp
next
  case True
  then obtain t where e: "e = MoveClip (clip_id (heap s ! r)) t" by blast
  show ?thesis
  proof (cases "r \<in> set (clips s)")
    case True
    then show ?thesis using e moveClip_present [OF assms(1) True, of t] by simp
  next
    case False
    then show ?thesis using e moveClip_absent [OF assms False, of t] by simp
  qed
qed

lemma run_moved_to:
  assumes "ids_inv s" "r < length (heap s)"
  shows "heap (run evs s) ! r =
           (case moved_to r evs s of None \<Rightarrow> heap s ! r | Some x \<Rightarrow> (heap s ! r)\<lparr>startTime := x\<rparr>)"
  using assms
proof (induction evs arbitrary: s)
  case Nil then show ?case by simp
next
  case (Cons e evs)
  have 1: "ids_inv (step e s)" using ids_inv_step [OF Cons.prems(1), of e] by simp
  have 2: "r < length (heap (step e s))" using step_heap(1) [OF Cons.prems(2), of e] Cons.prems(2) by simp
  note ih = Cons.IH [OF 1 2]
  note st = step_move_of [OF Cons.prems, of e]
  show ?case
    by (cases "moved_to r evs (step e s)"; cases "move_of r e s") (simp_all add: ih st)
qed

text \<open>
  Claim C4, as amended.  Take a snapshot with \<^verbatim>\<open>getAllClips\<close> in any reachable state and let
  any calls and events follow (deletions, moves, gain changes, recordings, playback).  Read
  through the snapshot, every entry keeps its id, its duration and its samples; the
  snapshot itself, being the caller's own array, keeps its length and members.  An entry
  stays entirely as it was unless \<^verbatim>\<open>moveClip\<close> is called for its id.  A \<^verbatim>\<open>moveClip\<close> for
  the id of an entry is seen through the snapshot when it is called while the entry's clip
  is still in the store: the entry is the store's own clip object, whose \<open>startTime\<close>
  becomes \<open>max 0 t\<close>.  Once the clip has been deleted, \<^verbatim>\<open>moveClip\<close> for its id finds no clip
  and changes nothing.  So after any calls and events an entry is what it was at the
  snapshot, with the start time given by the last \<^verbatim>\<open>moveClip\<close> for its id that was called
  while its clip was in the store, if there was one.
\<close>

theorem snapshot_frame:
  "(\<forall>pre evs.
      map clip_id (observe (run evs (run pre initial)) (getAllClips (run pre initial)))
        = map clip_id (observe (run pre initial) (getAllClips (run pre initial))) \<and>
      map duration (observe (run evs (run pre initial)) (getAllClips (run pre initial)))
        = map duration (observe (run pre initial) (getAllClips (run pre initial))) \<and>
      map audioBuffer (observe (run evs (run pre initial)) (getAllClips (run pre initial)))
        = map audioBuffer (observe (run pre initial) (getAllClips (run pre initial))) \<and>
      (\<forall>r\<in>set (getAllClips (run pre initial)).
          (\<forall>t. MoveClip (clip_id (heap (run pre initial) ! r)) t \<notin> set evs) \<longrightarrow>
          heap (run evs (run pre initial)) ! r = heap (run pre initial) ! r) \<and>
      (\<forall>r\<in>set (getAllClips (run pre initial)).
          heap (run evs (run pre initial)) ! r =
            (case moved_to r evs (run pre initial) of
               None \<Rightarrow> heap (run pre initial) ! r
             | Some x \<Rightarrow> (heap (run pre initial) ! r)\<lparr>startTime := x\<rparr>))) \<and>
   (\<forall>pre r t. r \<in> set (getAllClips (run pre initial)) \<longrightarrow>
      startTime (heap (moveClip (clip_id (heap (run pre initial) ! r)) t (run pre initial)) ! r) = max 0 t) \<and>
   (\<forall>pre evs r t.
      r \<in> set (getAllClips (run pre initial)) \<and> r \<notin> set (getAllClips (run evs (run pre initial))) \<longrightarrow>
      moveClip (clip_id (heap (run pre initial) ! r)) t (run evs (run pre initial))
        = run evs (run pre initial))"
proof (intro conjI allI impI ballI)
  fix pre evs
  let ?s = "run pre initial"
  have valid: "\<forall>r\<in>set (getAllClips ?s). r < length (heap ?s)"
    using reachable_inv [of pre] by (simp add: ids_inv_def getAllClips_def)
  show "map clip_id (observe (run evs ?s) (getAllClips ?s)) = map clip_id (observe ?s (getAllClips ?s))"
    using valid run_heap [of _ ?s evs] by (simp add: observe_def)
  show "map duration (observe (run evs ?s) (getAllClips ?s)) = map duration (observe ?s (getAllClips ?s))"
    using valid run_heap [of _ ?s evs] by (simp add: observe_def)
  show "map audioBuffer (observe (run evs ?s) (getAllClips ?s)) = map audioBuffer (observe ?s (getAllClips ?s))"
    using valid run_heap [of _ ?s evs] by (simp add: observe_def)
  {
    fix r assume "r \<in> set (getAllClips ?s)" "\<forall>t. MoveClip (clip_id (heap ?s ! r)) t \<notin> set evs"
    then show "heap (run evs ?s) ! r = heap ?s ! r"
      using valid run_heap [of r ?s evs] by simp
  }
  fix r assume "r \<in> set (getAllClips ?s)"
  then have "r < length (heap ?s)" using valid by simp
  then show "heap (run evs ?s) ! r =
            (case moved_to r evs ?s of None \<Rightarrow> heap ?s ! r | Some x \<Rightarrow> (heap ?s ! r)\<lparr>startTime := x\<rparr>)"
    by (intro run_moved_to reachable_inv)
next
  fix pre r t
  let ?s = "run pre initial"
  assume r: "r \<in> set (getAllClips ?s)"
  have inv: "ids_inv ?s" by (rule reachable_inv)
  show "startTime (heap (moveClip (clip_id (heap ?s ! r)) t ?s) ! r) = max 0 t"
    using moveClip_present [OF inv, of r t] r by (simp add: getAllClips_def)
next
  fix pre evs r t
  let ?s = "run pre initial"
  let ?s' = "run evs ?s"
  assume a: "r \<in> set (getAllClips ?s) \<and> r \<notin> set (getAllClips ?s')"
  have inv: "ids_inv ?s'" using reachable_inv [of "pre @ evs"] by (simp add: run_append)
  have r: "r < length (heap ?s)" using reachable_inv [of pre] a by (simp add: ids_inv_def getAllClips_def)
  have len: "r < length (heap ?s')" using r by (rule run_heap_valid)
  have i: "clip_id (heap ?s' ! r) = clip_id (heap ?s ! r)" using run_heap [OF r, of evs] by simp
  have "moveClip (clip_id (heap ?s' ! r)) t ?s' = ?s'"
    using a len by (intro moveClip_absent [OF inv]) (simp_all add: getAllClips_def)
  then show "moveClip (clip_id (heap ?s ! r)) t ?s' = ?s'" by (simp add: i)
qed

text \<open>
  Claim C4 as stated fails: a snapshot taken when clip 1 starts at 2 shows start time 7
  after \<^verbatim>\<open>moveClip(1, 7)\<close>.
\<close>

theorem snapshot_sees_move:
  "getAllClips example_state = [0] \<and>
   map startTime (observe example_state (getAllClips example_state)) = [2] \<and>
   map startTime (observe (moveClip 1 7 example_state) (getAllClips example_state)) = [7]"
  by (simp add: example_state_eq observe_def eval_defs)

theorem snapshot_frame_witness:
  "getAllClips (run (Init # record_clip 0 @ record_clip 1) initial) = [0, 1] \<and>
   map clip_id (observe (run [DeleteClip 1, MoveClip 2 7, SetClipVolume 1 0.5]
       (run (Init # record_clip 0 @ record_clip 1) initial))
     (getAllClips (run (Init # record_clip 0 @ record_clip 1) initial))) = [1, 2] \<and>
   getAllClips (run [DeleteClip 1, MoveClip 2 7, SetClipVolume 1 0.5]
       (run (Init # record_clip 0 @ record_clip 1) initial)) = [1] \<and>
   heap (run [DeleteClip 1, MoveClip 2 7, SetClipVolume 1 0.5]
       (run (Init # record_clip 0 @ record_clip 1) initial)) ! 0
     = heap (run (Init # record_clip 0 @ record_clip 1) initial) ! 0 \<and>
   startTime (heap (moveClip (clip_id (heap (run (Init # record_clip 0 @ record_clip 1) initial) ! 1)) 7
       (run (Init # record_clip 0 @ record_clip 1) initial)) ! 1) = 7 \<and>
   moved_to 0 [DeleteClip 1, MoveClip 1 7, MoveClip 2 9, MoveClip 2 5]
       (run (Init # record_clip 0 @ record_clip 1) initial) = None \<and>
   moved_to 1 [DeleteClip 1, MoveClip 1 7, MoveClip 2 9, MoveClip 2 5]
       (run (Init # record_clip 0 @ record_clip 1) initial) = Some 5 \<and>
   map startTime (observe (run (Init # record_clip 0 @ record_clip 1) initial)
     (getAllClips (run (Init # record_clip 0 @ record_clip 1) initial))) = [0, 1] \<and>
   map startTime (observe (run [DeleteClip 1, MoveClip 1 7, MoveClip 2 9, MoveClip 2 5]
       (run (Init # record_clip 0 @ record_clip 1) initial))
     (getAllClips (run (Init # record_clip 0 @ record_clip 1) initial))) = [0, 5] \<and>
   0 \<notin> set (getAllClips (run [DeleteClip 1] (run (Init # record_clip 0 @ record_clip 1) initial))) \<and>
   moveClip 1 7 (run [DeleteClip 1] (run (Init # record_clip 0 @ record_clip 1) initial))
     = run [DeleteClip 1] (run (Init # record_clip 0 @ record_clip 1) initial)"
proof -
  let ?pre = "Init # record_clip 0 @ record_clip 1"
  let ?evs = "[DeleteClip 1, MoveClip 2 7, SetClipVolume 1 0.5]"
  let ?mvs = "[DeleteClip 1, MoveClip 1 7, MoveClip 2 9, MoveClip 2 5]"
  have e: "getAllClips (run ?pre initial) = [0, 1]"
    "map clip_id (observe (run ?pre initial) (getAllClips (run ?pre initial))) = [1, 2]"
    "getAllClips (run ?evs (run ?pre initial)) = [1]"
    "clip_id (heap (run ?pre initial) ! 0) = 1"
    "map startTime (observe (run ?pre initial) (getAllClips (run ?pre initial))) = [0, 1]"
    "0 \<notin> set (getAllClips (run [DeleteClip 1] (run ?pre initial)))"
    by (simp_all add: record_clip_def observe_def eval_defs three_seconds_def)
  have m: "moved_to 0 ?mvs (run ?pre initial) = None" "moved_to 1 ?mvs (run ?pre initial) = Some 5"
    by (simp_all add: record_clip_def eval_defs three_seconds_def)
  note f = snapshot_frame [THEN conjunct1, THEN spec, THEN spec, of ?evs ?pre]
  have a: "map clip_id (observe (run ?evs (run ?pre initial)) (getAllClips (run ?pre initial))) = [1, 2]"
    using f e(2) by simp
  have b: "heap (run ?evs (run ?pre initial)) ! 0 = heap (run ?pre initial) ! 0"
    using f e(1,4) by simp
  have c: "startTime (heap (moveClip (clip_id (heap (run ?pre initial) ! 1)) 7 (run ?pre initial)) ! 1) = max 0 7"
    using snapshot_frame [THEN conjunct2, THEN conjunct1, THEN spec, THEN spec, THEN spec, THEN mp, of 1 ?pre 7] e(1)
    by simp
  note g = snapshot_frame [THEN conjunct1, THEN spec, THEN spec, of ?mvs ?pre]
  have d: "heap (run ?mvs (run ?pre initial)) ! 0 = heap (run ?pre initial) ! 0"
    "heap (run ?mvs (run ?pre initial)) ! 1 = (heap (run ?pre initial) ! 1)\<lparr>startTime := 5\<rparr>"
    using g e(1) m by simp_all
  have d': "map startTime (observe (run ?mvs (run ?pre initial)) (getAllClips (run ?pre initial))) = [0, 5]"
    using d e(1,5) by (simp add: observe_def)
  have h: "moveClip (clip_id (heap (run ?pre initial) ! 0)) 7 (run [DeleteClip 1] (run ?pre initial))
      = run [DeleteClip 1] (run ?pre initial)"
    using snapshot_frame [THEN conjunct2, THEN conjunct2, THEN spec, THEN spec, THEN spec, THEN spec, THEN mp,
        of 0 ?pre "[DeleteClip 1]" 7] e(1,6)
    by simp
  have c': "startTime (heap (moveClip (clip_id (heap (run ?pre initial) ! 1)) 7 (run ?pre initial)) ! 1) = 7"
    using c by simp
  note h' = h [unfolded e(4)]
  show ?thesis by (intro conjI) (rule a b c' d' e m h')+
qed
lemma playClip_clips: "playClip r off (s\<lparr>clips := cs\<rparr>) = (playClip r off s)\<lparr>clips := cs\<rparr>"
  by (simp add: playClip_def Let_def)

lemma checkTime_each_clips:
  "checkTime_each rs t st (s\<lparr>clips := cs\<rparr>)
     = (fst (checkTime_each rs t st s), (snd (checkTime_each rs t st s))\<lparr>clips := cs\<rparr>)"
proof (induction rs arbitrary: st s)
  case Nil show ?case by simp
next
  case (Cons r rs)
  show ?case by (simp add: Let_def playClip_clips Cons.IH)
qed

lemma checkTime_clips:
  "checkTime sch t (s\<lparr>clips := cs\<rparr>)
     = (fst (checkTime sch t s), (snd (checkTime sch t s))\<lparr>clips := cs\<rparr>)"
  by (simp add: checkTime_def checkTime_each_clips split: prod.splits)

text \<open>
  Claim C9, as amended.  A scheduler acts on the array of clip objects captured at its
  creation and never reads the ClipStore's array: a tick decides and plays the same
  whatever that array has become, in particular after \<^verbatim>\<open>deleteClip\<close>.  What a tick does
  read at the time of the tick are the captured objects' start times and the gain table,
  so a move or a gain change made since the creation is reflected.  The application's
  handlers for deleting a clip, moving a clip and a completed recording replace the
  scheduler by one that captures the ClipStore as it is after the edit.
\<close>

theorem scheduler_reads:
  "(\<forall>sch t s cs.
      fst (checkTime sch t (s\<lparr>clips := cs\<rparr>)) = fst (checkTime sch t s) \<and>
      new_playbacks (s\<lparr>clips := cs\<rparr>) (snd (checkTime sch t (s\<lparr>clips := cs\<rparr>)))
        = new_playbacks s (snd (checkTime sch t s))) \<and>
   (\<forall>sch t s i.
      fst (checkTime sch t (deleteClip i s)) = fst (checkTime sch t s) \<and>
      new_playbacks (deleteClip i s) (snd (checkTime sch t (deleteClip i s)))
        = new_playbacks s (snd (checkTime sch t s))) \<and>
   (\<forall>sch t s. \<forall>p\<in>set (new_playbacks s (snd (checkTime sch t s))). \<exists>r\<in>set (captured sch).
      played_clip p = clip_id (heap s ! r) \<and> in_window (heap s ! r) t \<and>
      played_offset p = fsub t (startTime (heap s ! r)) \<and> played_gain p = getClipGain s (played_clip p)) \<and>
   (\<forall>playing t s sch i x r.
      (clipScheduler (onClipDelete i playing t s) = Some sch \<longrightarrow>
         captured sch = getAllClips (deleteClip i s)) \<and>
      (clipScheduler (onClipMove i x playing t s) = Some sch \<longrightarrow>
         captured sch = getAllClips (moveClip i x s)) \<and>
      (clipScheduler (recordingComplete r playing t s) = Some sch \<longrightarrow>
         captured sch = getAllClips s))"
proof (intro conjI allI impI)
  fix sch t and s :: state and cs
  show "fst (checkTime sch t (s\<lparr>clips := cs\<rparr>)) = fst (checkTime sch t s)"
    by (simp add: checkTime_clips)
  show "new_playbacks (s\<lparr>clips := cs\<rparr>) (snd (checkTime sch t (s\<lparr>clips := cs\<rparr>)))
        = new_playbacks s (snd (checkTime sch t s))"
    by (simp add: checkTime_clips new_playbacks_def)
next
  fix sch t and s :: state and i
  show "fst (checkTime sch t (deleteClip i s)) = fst (checkTime sch t s)"
    by (simp add: deleteClip_def checkTime_clips)
  show "new_playbacks (deleteClip i s) (snd (checkTime sch t (deleteClip i s)))
        = new_playbacks s (snd (checkTime sch t s))"
    by (simp add: deleteClip_def checkTime_clips new_playbacks_def)
next
  fix sch t and s :: state
  have "checkTime sch t s = (fst (checkTime sch t s), snd (checkTime sch t s))" by simp
  from checkTime_spec(5) [OF this]
  show "\<forall>p\<in>set (new_playbacks s (snd (checkTime sch t s))). \<exists>r\<in>set (captured sch).
      played_clip p = clip_id (heap s ! r) \<and> in_window (heap s ! r) t \<and>
      played_offset p = fsub t (startTime (heap s ! r)) \<and> played_gain p = getClipGain s (played_clip p)" .
next
  fix playing t and s :: state and sch i x r
  assume "clipScheduler (onClipDelete i playing t s) = Some sch"
  then show "captured sch = getAllClips (deleteClip i s)"
    unfolding onClipDelete_def by (rule restart_scheduler(2))
next
  fix playing t and s :: state and sch i x r
  assume "clipScheduler (onClipMove i x playing t s) = Some sch"
  then show "captured sch = getAllClips (moveClip i x s)"
    unfolding onClipMove_def by (rule restart_scheduler(2))
next
  fix playing t and s :: state and sch i x r
  assume "clipScheduler (recordingComplete r playing t s) = Some sch"
  then have "captured sch = getAllClips (setClipVolume (clip_id (heap s ! r)) 0.8 s)"
    unfolding recordingComplete_def by (rule restart_scheduler(2))
  then show "captured sch = getAllClips s" by (simp add: getAllClips_def setClipVolume_def)
qed

text \<open>
  Claim C9 as stated fails: a scheduler created while clip 1 is in the store still starts
  clip 1 at the tick 2.5 that follows \<^verbatim>\<open>deleteClip(1)\<close>, when the store is empty.
\<close>

theorem scheduler_keeps_deleted_clip:
  "getAllClips (run [Restart True 1, DeleteClip 1] example_state) = [] \<and>
   playbacks (run [Restart True 1, DeleteClip 1] example_state) = [] \<and>
   playbacks (run [Restart True 1, DeleteClip 1, Tick 2.5] example_state)
     = [\<lparr>node = 0, played_clip = 1, played_offset = 0.5, played_gain = 0.8\<rparr>]"
  by (simp add: example_state_eq eval_defs)

theorem scheduler_reads_witness:
  "fst (checkTime (createClipScheduler [0]) 2.5 (deleteClip 1 example_state))
     = fst (checkTime (createClipScheduler [0]) 2.5 example_state) \<and>
   started (fst (checkTime (createClipScheduler [0]) 2.5 example_state)) = {1} \<and>
   playbacks (run [Restart True 1, MoveClip 1 7, SetClipVolume 1 0.3, Tick 2.5] example_state) = [] \<and>
   playbacks (run [Restart True 1, MoveClip 1 7, SetClipVolume 1 0.3, Tick 2.5, Tick 8] example_state)
     = [\<lparr>node = 0, played_clip = 1, played_offset = 1, played_gain = 0.3\<rparr>] \<and>
   clipScheduler (onClipMove 1 7 True 8 example_state) = Some \<lparr>captured = [0], started = {1}\<rparr> \<and>
   captured \<lparr>captured = [0], started = {1 :: nat}\<rparr> = getAllClips (moveClip 1 7 example_state) \<and>
   clipScheduler (onClipDelete 1 True 2.5 example_state) = None"
proof -
  have e: "started (fst (checkTime (createClipScheduler [0]) 2.5 example_state)) = {1}"
    "playbacks (run [Restart True 1, MoveClip 1 7, SetClipVolume 1 0.3, Tick 2.5] example_state) = []"
    "playbacks (run [Restart True 1, MoveClip 1 7, SetClipVolume 1 0.3, Tick 2.5, Tick 8] example_state)
     = [\<lparr>node = 0, played_clip = 1, played_offset = 1, played_gain = 0.3\<rparr>]"
    "clipScheduler (onClipMove 1 7 True 8 example_state) = Some \<lparr>captured = [0], started = {1}\<rparr>"
    "clipScheduler (onClipDelete 1 True 2.5 example_state) = None"
    by (simp_all add: example_state_eq eval_defs onClipMove_def onClipDelete_def)
  have a: "fst (checkTime (createClipScheduler [0]) 2.5 (deleteClip 1 example_state))
     = fst (checkTime (createClipScheduler [0]) 2.5 example_state)"
    using scheduler_reads [THEN conjunct2, THEN conjunct1] by blast
  have b: "captured \<lparr>captured = [0], started = {1 :: nat}\<rparr> = getAllClips (moveClip 1 7 example_state)"
    using scheduler_reads [THEN conjunct2, THEN conjunct2, THEN conjunct2] e(4) by blast
  show ?thesis using a b e by simp
qed

section \<open>Export without recordings, capture without a clip\<close>

text \<open>
  Claim C7.  When the ClipStore is empty, the recordings export (which never includes the
  primary track) shows the alert ``No recordings to export.'' and returns: it reports no
  progress, constructs no rendering context, throws nothing and hands no file to the
  download.  This early return is how the program signals \<open>NothingToExport\<close>.
\<close>

theorem nothing_to_export:
  "getAllClips s = [] \<Longrightarrow>
   downloadRecordedAudio offline videoDuration s
     = \<lparr>alerts = [''No recordings to export.''], progress = [], downloads = [], thrown = None\<rparr>"
  by (simp add: downloadRecordedAudio_def no_effects_def)

theorem nothing_to_export_witness:
  "getAllClips initial = [] \<and>
   downloads (downloadRecordedAudio example_backend 10 initial) = [] \<and>
   alerts (downloadRecordedAudio example_backend 10 initial) = [''No recordings to export.''] \<and>
   getAllClips (run [Restart True 1, DeleteClip 1] example_state) = [] \<and>
   downloads (downloadRecordedAudio example_backend 10 (run [Restart True 1, DeleteClip 1] example_state)) = []"
proof -
  have e: "getAllClips initial = []" "getAllClips (run [Restart True 1, DeleteClip 1] example_state) = []"
    by (simp_all add: example_state_eq eval_defs)
  show ?thesis
    using nothing_to_export [OF e(1), of example_backend 10]
      nothing_to_export [OF e(2), of example_backend 10] e
    by simp
qed

lemma export_example:
  "downloadRecordedAudio example_backend 10 example_state
     = \<lparr>alerts = [],
        progress = [(Preparing, 0), (Mixing, 0), (Rendering, 60), (Encoding, 85), (Done, 100)],
        downloads = [(''thiptines-day-recordings.wav'',
          [82, 73, 70, 70, 46, 0, 0, 0, 87, 65, 86, 69, 102, 109, 116, 32, 16, 0, 0, 0, 1, 0, 1, 0,
           64, 31, 0, 0, 128, 62, 0, 0, 2, 0, 16, 0, 100, 97, 116, 97, 10, 0, 0, 0,
           0, 0, 255, 63, 0, 192, 255, 127, 0, 128])],
        thrown = None\<rparr>"
proof -
  have w: "audioBufferToWav example_buffer = Inr
     [82, 73, 70, 70, 46, 0, 0, 0, 87, 65, 86, 69, 102, 109, 116, 32, 16, 0, 0, 0, 1, 0, 1, 0,
      64, 31, 0, 0, 128, 62, 0, 0, 2, 0, 16, 0, 100, 97, 116, 97, 10, 0, 0, 0,
      0, 0, 255, 63, 0, 192, 255, 127, 0, 128]"
    using audioBufferToWav_bytes [OF interleave_frames, of example_buffer] ex_wf ex_wav ex_frames
      header_fields_riff [of example_buffer 8000 1 5]
    by simp
  show ?thesis
    by (simp add: downloadRecordedAudio_def example_state_eq initial_def getAllClips_def no_effects_def
        emit_def Math_round_def three_seconds_def example_backend_def getClipGain_def w Let_def
        fmul_def fdiv_def fl_values)
qed

text \<open>
  Claim C8.  (1) With no chunk accumulated, the stop handler does nothing at all, whatever
  the decoder would answer; \<^verbatim>\<open>stopRecording\<close> has already cleared \<open>isRecording\<close>, and an
  empty final \<^verbatim>\<open>dataavailable\<close> adds no chunk: after the stop the session is idle and the
  store, the heap of clips and the id counter are as before.  (2) With chunks accumulated
  and a decoder that fails with \<open>err\<close>, the stop handler reports the failure on the console,
  clears \<open>isRecording\<close> and leaves the store, the heap of clips, the id counter and the
  scheduler as they were: no clip is inserted and no completion is notified.
\<close>

theorem capture_without_clip:
  "(\<forall>s d playing t. chunks s = [] \<longrightarrow>
      onstop d playing t s = s \<and>
      isRecording (onstop d playing t (ondataavailable 0 (stopRecording s))) = False \<and>
      clips (onstop d playing t (ondataavailable 0 (stopRecording s))) = clips s \<and>
      heap (onstop d playing t (ondataavailable 0 (stopRecording s))) = heap s \<and>
      nextClipId (onstop d playing t (ondataavailable 0 (stopRecording s))) = nextClipId s \<and>
      console (onstop d playing t (ondataavailable 0 (stopRecording s))) = console s) \<and>
   (\<forall>s err playing t. chunks s \<noteq> [] \<longrightarrow>
      isRecording (onstop (Inl err) playing t s) = False \<and>
      clips (onstop (Inl err) playing t s) = clips s \<and>
      heap (onstop (Inl err) playing t s) = heap s \<and>
      nextClipId (onstop (Inl err) playing t s) = nextClipId s \<and>
      clipScheduler (onstop (Inl err) playing t s) = clipScheduler s \<and>
      clipGains (onstop (Inl err) playing t s) = clipGains s \<and>
      playbacks (onstop (Inl err) playing t s) = playbacks s \<and>
      console (onstop (Inl err) playing t s) = console s @ [FailedToDecode err])"
proof (intro conjI allI impI)
  fix s :: state and d :: "error + audio_buffer" and playing :: bool and t :: real
  assume c: "chunks s = []"
  let ?s1 = "ondataavailable 0 (stopRecording s)"
  show "onstop d playing t s = s" using c by (simp add: onstop_def)
  have 1: "?s1 = stopRecording s" by (simp add: ondataavailable_def)
  have 2: "chunks ?s1 = []" using c by (simp add: 1 stopRecording_frame)
  have 3: "onstop d playing t ?s1 = stopRecording s" using 2 by (simp add: onstop_def 1)
  show "isRecording (onstop d playing t ?s1) = False" by (simp only: 3 stopRecording_frame)
  show "clips (onstop d playing t ?s1) = clips s" by (simp only: 3 stopRecording_frame)
  show "heap (onstop d playing t ?s1) = heap s" by (simp only: 3 stopRecording_frame)
  show "nextClipId (onstop d playing t ?s1) = nextClipId s" by (simp only: 3 stopRecording_frame)
  show "console (onstop d playing t ?s1) = console s" by (simp only: 3 stopRecording_frame)
next
  fix s :: state and err :: error and playing :: bool and t :: real
  assume c: "chunks s \<noteq> []"
  have "onstop (Inl err) playing t s = s\<lparr>console := console s @ [FailedToDecode err], isRecording := False\<rparr>"
    using c by (simp add: onstop_def)
  then show "isRecording (onstop (Inl err) playing t s) = False"
    "clips (onstop (Inl err) playing t s) = clips s"
    "heap (onstop (Inl err) playing t s) = heap s"
    "nextClipId (onstop (Inl err) playing t s) = nextClipId s"
    "clipScheduler (onstop (Inl err) playing t s) = clipScheduler s"
    "clipGains (onstop (Inl err) playing t s) = clipGains s"
    "playbacks (onstop (Inl err) playing t s) = playbacks s"
    "console (onstop (Inl err) playing t s) = console s @ [FailedToDecode err]"
    by simp_all
qed

theorem capture_without_clip_witness:
  "chunks (run [Init, StartRecording 2 True] initial) = [] \<and>
   isRecording (run [Init, StartRecording 2 True] initial) = True \<and>
   isRecording (run [Init, StartRecording 2 True, StopRecording, DataAvailable 0,
                     OnStop (Inr three_seconds) True 2] initial) = False \<and>
   clips (run [Init, StartRecording 2 True, StopRecording, DataAvailable 0,
               OnStop (Inr three_seconds) True 2] initial) = [] \<and>
   chunks (run [Init, SetOnRecordingComplete, StartRecording 2 True, DataAvailable 5, StopRecording] initial) \<noteq> [] \<and>
   isRecording (run [Init, SetOnRecordingComplete, StartRecording 2 True, DataAvailable 5, StopRecording,
                     OnStop (Inl DecodeError) True 2] initial) = False \<and>
   clips (run [Init, SetOnRecordingComplete, StartRecording 2 True, DataAvailable 5, StopRecording,
               OnStop (Inl DecodeError) True 2] initial) = [] \<and>
   console (run [Init, SetOnRecordingComplete, StartRecording 2 True, DataAvailable 5, StopRecording,
                 OnStop (Inl DecodeError) True 2] initial) = [FailedToDecode DecodeError]"
proof -
  let ?a = "run [Init, StartRecording 2 True] initial"
  let ?b = "run [Init, SetOnRecordingComplete, StartRecording 2 True, DataAvailable 5, StopRecording] initial"
  have e: "chunks ?a = []" "isRecording ?a = True" "clips ?a = []" "chunks ?b \<noteq> []" "clips ?b = []"
    "console ?b = []"
    by (simp_all add: eval_defs)
  note t1 = capture_without_clip [THEN conjunct1, THEN spec, THEN spec, THEN spec, THEN spec, THEN mp, OF e(1)]
  note t2 = capture_without_clip [THEN conjunct2, THEN spec, THEN spec, THEN spec, THEN spec, THEN mp, OF e(4)]
  have a: "isRecording (onstop (Inr three_seconds) True 2 (ondataavailable 0 (stopRecording ?a))) = False"
    "clips (onstop (Inr three_seconds) True 2 (ondataavailable 0 (stopRecording ?a))) = clips ?a"
    using t1 by blast+
  have b: "isRecording (onstop (Inl DecodeError) True 2 ?b) = False"
    "clips (onstop (Inl DecodeError) True 2 ?b) = clips ?b"
    "console (onstop (Inl DecodeError) True 2 ?b) = console ?b @ [FailedToDecode DecodeError]"
    using t2 by blast+
  have r1: "run [Init, StartRecording 2 True, StopRecording, DataAvailable 0, OnStop (Inr three_seconds) True 2] initial
      = onstop (Inr three_seconds) True 2 (ondataavailable 0 (stopRecording ?a))" by simp
  have r2: "run [Init, SetOnRecordingComplete, StartRecording 2 True, DataAvailable 5, StopRecording,
                 OnStop (Inl DecodeError) True 2] initial = onstop (Inl DecodeError) True 2 ?b" by simp
  show ?thesis
    unfolding r1 r2 using a b e by simp
qed

end
